theory Spec2Isabelle
  imports Main
begin

section \<open>FOIA feed: a model of foiafeed.py\<close>

text \<open>
  The program reads RSS feeds, drops the articles whose URL it has recorded before,
  fetches the text of the others, looks for paragraphs that mention public-records law,
  posts the matches and records every processed article in a table.

  Strings are lists of characters. Calls that leave the program (the feed reader, HTTP
  requests, the image renderer, the Twitter client, the clock) are fields of a record
  \<open>world\<close>: each returns either an exception or a value. The table \<open>articles\<close> of the
  database is a list of rows in ascending order of \<open>id\<close>; an insert appends a row.
  Failures of sqlite itself and of loading the configuration file are not modelled.
\<close>

subsection \<open>Strings\<close>

text \<open>\<open>s.split(c)\<close> for a one-character separator: never empty, \<open>''.split(c) = ['']\<close>.\<close>

fun split_on :: "char \<Rightarrow> string \<Rightarrow> string list" where
  "split_on c [] = [[]]"
| "split_on c (x # xs) =
     (if x = c then [] # split_on c xs
      else (case split_on c xs of
              [] \<Rightarrow> [[x]]
            | w # ws \<Rightarrow> (x # w) # ws))"

text \<open>\<open>sep.join(parts)\<close>, the inverse of \<open>split\<close>.\<close>

fun join_with :: "char \<Rightarrow> string list \<Rightarrow> string" where
  "join_with c [] = []"
| "join_with c [w] = w"
| "join_with c (w # v # ws) = w @ c # join_with c (v # ws)"

text \<open>
  \<open>s.lower()\<close> on ASCII text: the letters \<open>A\<close> to \<open>Z\<close> move to \<open>a\<close> to \<open>z\<close>, every
  other character stays.
\<close>

definition lower_char :: "char \<Rightarrow> char" where
  "lower_char c =
     (case map_of (zip ''ABCDEFGHIJKLMNOPQRSTUVWXYZ'' ''abcdefghijklmnopqrstuvwxyz'') c of
        None \<Rightarrow> c
      | Some l \<Rightarrow> l)"

definition lower :: "string \<Rightarrow> string" where
  "lower s = map lower_char s"

text \<open>\<open>s.startswith(p)\<close> and the substring test \<open>p in s\<close>.\<close>

fun startswith :: "string \<Rightarrow> string \<Rightarrow> bool" where
  "startswith s [] = True"
| "startswith [] (p # ps) = False"
| "startswith (c # cs) (p # ps) = (c = p \<and> startswith cs ps)"

fun str_in :: "string \<Rightarrow> string \<Rightarrow> bool" where
  "str_in p [] = (p = [])"
| "str_in p (c # cs) = (startswith (c # cs) p \<or> str_in p cs)"

subsection \<open>The lexicon and the URL cleaner\<close>

definition FOIA_PHRASES :: "string list" where
  "FOIA_PHRASES =
     [''f.o.i.a.'',
      ''foia'',
      ''freedom of information act'',
      ''freedom of information law'',
      ''records request'',
      ''open records'',
      ''public records act'',
      ''public records law'']"

text \<open>\<open>decruft_url\<close>: \<open>url.split('?')[0].split('#')[0]\<close>.\<close>

definition decruft_url :: "string \<Rightarrow> string" where
  "decruft_url u = hd (split_on CHR ''#'' (hd (split_on CHR ''?'' u)))"

subsection \<open>Exceptions, articles and the outside world\<close>

datatype exn =
    KeyError string
  | AttributeError string
  | External string

text \<open>
  An \<open>Article\<close> object. The class sets exactly these six attributes; it has no attribute
  \<open>media_ids\<close>.
\<close>

record 'img article =
  outlet :: string
  title :: string
  url :: string
  matching_grafs :: "string list"
  imgs :: "'img list"
  tweeted :: bool

text \<open>The response of \<open>requests.head\<close>: the \<open>location\<close> header, if any, and \<open>res.url\<close>.\<close>

record head_response =
  location :: "string option"
  res_url :: string

text \<open>
  The outside world. \<open>feed_entries u\<close> is \<open>feedparser.parse(u)['entries']\<close>, each entry a
  dictionary; \<open>fetch_plaintext u\<close> is what \<open>clean_article\<close> computes from the page at
  \<open>u\<close>; \<open>upload_media img\<close> saves the image as JPEG and uploads it, giving the response's
  media id; \<open>update_status status media_ids\<close> posts; \<open>utcnow n\<close> is the clock read when
  the table has \<open>n\<close> rows.
\<close>

record 'img world =
  feed_entries :: "string \<Rightarrow> (string \<rightharpoonup> string) list"
  requests_head :: "string \<Rightarrow> exn + head_response"
  fetch_plaintext :: "string \<Rightarrow> exn + string"
  render_img :: "string \<Rightarrow> nat \<Rightarrow> exn + 'img"
  get_twitter_instance :: "exn + unit"
  upload_media :: "'img \<Rightarrow> exn + nat"
  update_status :: "string \<Rightarrow> nat list \<Rightarrow> exn + unit"
  utcnow :: "nat \<Rightarrow> nat"

text \<open>What the program does that an observer sees, in order.\<close>

datatype event =
    Check_for_matches string
  | Tweet string
  | Render_img string nat
  | Upload_media
  | Update_status string "nat list"

text \<open>A row of the table \<open>articles\<close>; the \<open>id\<close> is the position in the list.\<close>

record row =
  row_title :: string
  row_outlet :: string
  row_url :: string
  row_tweeted :: bool
  recorded_at :: nat

subsection \<open>The class Article\<close>

text \<open>
  \<open>canonicalize_url\<close>: a redirect lookup for two outlets, then \<open>decruft_url\<close> for every
  outlet but AP. An exception of the lookup is not caught.
\<close>

definition resolve_redirect :: "'img world \<Rightarrow> string \<Rightarrow> exn + string" where
  "resolve_redirect w u =
     (case requests_head w u of
        Inl e \<Rightarrow> Inl e
      | Inr res \<Rightarrow> Inr (case location res of Some l \<Rightarrow> l | None \<Rightarrow> res_url res))"

definition canonicalize_url :: "'img world \<Rightarrow> 'img article \<Rightarrow> exn + 'img article" where
  "canonicalize_url w a =
     (case (if outlet a \<in> set [''ProPublica'', ''Reuters'']
            then resolve_redirect w (url a) else Inr (url a)) of
        Inl e \<Rightarrow> Inl e
      | Inr u \<Rightarrow> Inr (a\<lparr>url := (if outlet a \<notin> set [''AP''] then decruft_url u else u)\<rparr>))"

definition Article :: "'img world \<Rightarrow> string \<Rightarrow> string \<Rightarrow> string \<Rightarrow> exn + 'img article" where
  "Article w o_name t u =
     (case canonicalize_url w
             \<lparr>outlet = o_name, title = t, url = u, matching_grafs = [], imgs = [],
              tweeted = False\<rparr> of
        Inl e \<Rightarrow> Inl e
      | Inr a \<Rightarrow> Inr (a\<lparr>matching_grafs := [], imgs := [], tweeted := False\<rparr>))"

text \<open>\<open>any(phrase.lower() in graf.lower() for phrase in FOIA_PHRASES)\<close>\<close>

definition any_phrase_in :: "string \<Rightarrow> bool" where
  "any_phrase_in graf = list_ex (\<lambda>phrase. str_in (lower phrase) (lower graf)) FOIA_PHRASES"

text \<open>The loop of \<open>check_for_matches\<close> over the paragraphs.\<close>

fun match_loop :: "string list \<Rightarrow> 'img article \<Rightarrow> 'img article" where
  "match_loop [] a = a"
| "match_loop (graf # grafs) a =
     match_loop grafs
       (if any_phrase_in graf then a\<lparr>matching_grafs := matching_grafs a @ [graf]\<rparr> else a)"

definition clean_article :: "'img world \<Rightarrow> 'img article \<Rightarrow> exn + string" where
  "clean_article w a = fetch_plaintext w (url a)"

definition check_for_matches ::
  "'img world \<Rightarrow> 'img article \<Rightarrow> event list \<times> (exn + 'img article)" where
  "check_for_matches w a =
     ([Check_for_matches (url a)],
      case clean_article w a of
        Inl e \<Rightarrow> Inl e
      | Inr plaintext \<Rightarrow> Inr (match_loop (split_on (CHR 0x0A) plaintext) a))"

text \<open>The first loop of \<open>tweet\<close>: one image per paragraph; a failed rendering raises.\<close>

fun render_loop ::
  "'img world \<Rightarrow> string list \<Rightarrow> nat \<Rightarrow> 'img article \<Rightarrow> event list \<times> (exn + 'img article)" where
  "render_loop w [] width a = ([], Inr a)"
| "render_loop w (graf # grafs) width a =
     (case render_img w graf width of
        Inl e \<Rightarrow> ([Render_img graf width], Inl e)
      | Inr im \<Rightarrow>
          (case render_loop w grafs width (a\<lparr>imgs := imgs a @ [im]\<rparr>) of
             (evs, r) \<Rightarrow> (Render_img graf width # evs, r)))"

text \<open>
  The body of the \<open>try\<close> in the second loop: save and upload the image, then
  \<open>self.media_ids.append(...)\<close>. The object has no attribute \<open>media_ids\<close>, so the
  attribute lookup raises before anything is appended.
\<close>

definition upload_one :: "'img world \<Rightarrow> 'img \<Rightarrow> exn + unit" where
  "upload_one w img =
     (case upload_media w img of
        Inl e \<Rightarrow> Inl e
      | Inr media_id \<Rightarrow> Inl (AttributeError ''media_ids''))"

text \<open>The second loop, with its \<open>except: pass\<close>; \<open>media_ids\<close> is the local list.\<close>

fun upload_loop :: "'img world \<Rightarrow> 'img list \<Rightarrow> nat list \<Rightarrow> event list \<times> nat list" where
  "upload_loop w [] media_ids = ([], media_ids)"
| "upload_loop w (img # rest) media_ids =
     (case upload_one w img of
        Inl e \<Rightarrow> (case upload_loop w rest media_ids of (evs, ids) \<Rightarrow> (Upload_media # evs, ids))
      | Inr u \<Rightarrow> (case upload_loop w rest media_ids of (evs, ids) \<Rightarrow> (Upload_media # evs, ids)))"

definition status_text :: "'img article \<Rightarrow> string" where
  "status_text a = outlet a @ '': '' @ title a @ '' '' @ url a"

definition tweet :: "'img world \<Rightarrow> 'img article \<Rightarrow> event list \<times> (exn + 'img article)" where
  "tweet w a =
     (let width = (if length (matching_grafs a) = 1 then 60 else 35) in
      case render_loop w (take 4 (matching_grafs a)) width a of
        (ev1, Inl e) \<Rightarrow> (Tweet (url a) # ev1, Inl e)
      | (ev1, Inr a1) \<Rightarrow>
          (case get_twitter_instance w of
             Inl e \<Rightarrow> (Tweet (url a) # ev1, Inl e)
           | Inr tw \<Rightarrow>
               (case upload_loop w (imgs a1) [] of
                  (ev2, media_ids) \<Rightarrow>
                    (Tweet (url a) # ev1 @ ev2 @ [Update_status (status_text a1) media_ids],
                     case update_status w (status_text a1) media_ids of
                       Inl e \<Rightarrow> Inl e
                     | Inr u \<Rightarrow> Inr (a1\<lparr>tweeted := True\<rparr>)))))"

subsection \<open>Feeds and the main loop\<close>

text \<open>
  \<open>parse_feed\<close>: one \<open>Article\<close> per entry. \<open>entry['title']\<close> and \<open>entry['link']\<close>
  raise \<open>KeyError\<close> on an entry without the key; nothing catches it.
\<close>

fun parse_entries ::
  "'img world \<Rightarrow> string \<Rightarrow> (string \<rightharpoonup> string) list \<Rightarrow> 'img article list
     \<Rightarrow> exn + 'img article list" where
  "parse_entries w o_name [] articles = Inr articles"
| "parse_entries w o_name (entry # entries) articles =
     (case entry ''title'' of
        None \<Rightarrow> Inl (KeyError ''title'')
      | Some t \<Rightarrow>
          (case entry ''link'' of
             None \<Rightarrow> Inl (KeyError ''link'')
           | Some l \<Rightarrow>
               (case Article w o_name t l of
                  Inl e \<Rightarrow> Inl e
                | Inr a \<Rightarrow> parse_entries w o_name entries (articles @ [a]))))"

definition parse_feed :: "'img world \<Rightarrow> string \<Rightarrow> string \<Rightarrow> exn + 'img article list" where
  "parse_feed w o_name feed_url = parse_entries w o_name (feed_entries w feed_url) []"

text \<open>\<open>select url from articles where outlet=? order by id desc limit 1000\<close>\<close>

definition recent_urls :: "row list \<Rightarrow> string \<Rightarrow> string list" where
  "recent_urls db o_name =
     take 1000 (map row_url (rev (filter (\<lambda>r. row_outlet r = o_name) db)))"

text \<open>\<open>articles = [a for a in articles if a.url not in recent_urls]\<close>\<close>

definition filter_articles :: "string list \<Rightarrow> 'img article list \<Rightarrow> 'img article list" where
  "filter_articles recent articles = filter (\<lambda>a. url a \<notin> set recent) articles"

text \<open>The \<open>insert into articles\<close> of the main loop.\<close>

definition insert_row :: "'img world \<Rightarrow> 'img article \<Rightarrow> row list \<Rightarrow> row list" where
  "insert_row w a db =
     db @ [\<lparr>row_title = title a, row_outlet = outlet a, row_url = url a,
            row_tweeted = tweeted a, recorded_at = utcnow w (length db)\<rparr>]"

text \<open>
  The body of the loop over the filtered articles, up to the insert:
  \<open>article.check_for_matches()\<close>, then \<open>article.tweet()\<close> if a paragraph matched.
  No call is guarded: an exception of either ends the run.
\<close>

definition check_and_tweet ::
  "'img world \<Rightarrow> 'img article \<Rightarrow> event list \<times> (exn + 'img article)" where
  "check_and_tweet w a =
     (case check_for_matches w a of
        (ev1, Inl e) \<Rightarrow> (ev1, Inl e)
      | (ev1, Inr a1) \<Rightarrow>
          (if matching_grafs a1 \<noteq> []
           then (case tweet w a1 of (ev2, r) \<Rightarrow> (ev1 @ ev2, r))
           else (ev1, Inr a1)))"

text \<open>
  The loop over the filtered articles of one feed. The result is the table, the events
  and the exception that ended the loop, if one did.
\<close>

fun process_articles ::
  "'img world \<Rightarrow> 'img article list \<Rightarrow> row list \<Rightarrow> row list \<times> event list \<times> exn option" where
  "process_articles w [] db = (db, [], None)"
| "process_articles w (a # rest) db =
     (case check_and_tweet w a of
        (ev1, Inl e) \<Rightarrow> (db, ev1, Some e)
      | (ev1, Inr a2) \<Rightarrow>
          (case process_articles w rest (insert_row w a2 db) of
             (db', ev2, r) \<Rightarrow> (db', ev1 @ ev2, r)))"

text \<open>The body of the loop over the feeds, for the feed \<open>(outlet, url)\<close>.\<close>

definition process_feed ::
  "'img world \<Rightarrow> string \<times> string \<Rightarrow> row list \<Rightarrow> row list \<times> event list \<times> exn option" where
  "process_feed w feed db =
     (case parse_feed w (fst feed) (snd feed) of
        Inl e \<Rightarrow> (db, [], Some e)
      | Inr articles \<Rightarrow>
          process_articles w (filter_articles (recent_urls db (fst feed)) articles) db)"

fun main_loop ::
  "'img world \<Rightarrow> (string \<times> string) list \<Rightarrow> row list \<Rightarrow> row list \<times> event list \<times> exn option" where
  "main_loop w [] db = (db, [], None)"
| "main_loop w (feed # feeds) db =
     (case process_feed w feed db of
        (db1, ev1, Some e) \<Rightarrow> (db1, ev1, Some e)
      | (db1, ev1, None) \<Rightarrow>
          (case main_loop w feeds db1 of (db2, ev2, r) \<Rightarrow> (db2, ev1 @ ev2, r)))"

definition main ::
  "'img world \<Rightarrow> (string \<times> string) list \<Rightarrow> row list \<Rightarrow> row list \<times> event list \<times> exn option" where
  "main w rss_feeds db =
     (case get_twitter_instance w of
        Inl e \<Rightarrow> (db, [], Some e)
      | Inr tw \<Rightarrow> main_loop w rss_feeds db)"

subsection \<open>Reading the events\<close>

text \<open>The calls of \<open>render_img\<close> and of \<open>update_status\<close> among the events, in order.\<close>

fun rendered :: "event list \<Rightarrow> (string \<times> nat) list" where
  "rendered [] = []"
| "rendered (Render_img g wd # evs) = (g, wd) # rendered evs"
| "rendered (ev # evs) = rendered evs"

fun posted :: "event list \<Rightarrow> (string \<times> nat list) list" where
  "posted [] = []"
| "posted (Update_status s ids # evs) = (s, ids) # posted evs"
| "posted (ev # evs) = posted evs"

text \<open>The wrap width that \<open>tweet\<close> computes.\<close>

definition tweet_width :: "'img article \<Rightarrow> nat" where
  "tweet_width a = (if length (matching_grafs a) = 1 then 60 else 35)"

subsection \<open>Example worlds and articles\<close>

text \<open>
  Concrete inputs for the example runs: a world in which every call succeeds, and
  variants in which the redirect lookup moves, the text is the sample text, the post
  fails, the fetch fails, or the feed has an entry without a link.
\<close>

definition quiet_world :: "nat world" where
  "quiet_world =
     \<lparr>feed_entries = (\<lambda>u. []),
      requests_head = (\<lambda>u. Inr \<lparr>location = None, res_url = u\<rparr>),
      fetch_plaintext = (\<lambda>u. Inr []),
      render_img = (\<lambda>graf width. Inr (length graf)),
      get_twitter_instance = Inr (),
      upload_media = (\<lambda>img. Inr img),
      update_status = (\<lambda>status media_ids. Inr ()),
      utcnow = (\<lambda>n. n)\<rparr>"

definition new_article :: "string \<Rightarrow> string \<Rightarrow> string \<Rightarrow> nat article" where
  "new_article o_name t u =
     \<lparr>outlet = o_name, title = t, url = u, matching_grafs = [], imgs = [], tweeted = False\<rparr>"

definition moving_world :: "nat world" where
  "moving_world =
     quiet_world\<lparr>requests_head := (\<lambda>u. Inr \<lparr>location = None, res_url =
        (if u = ''http://r.example/x?id=1'' then ''http://r.example/y?id=1''
         else if u = ''http://r.example/y'' then ''http://r.example/z''
         else u)\<rparr>)\<rparr>"

definition spec_text :: string where
  "spec_text = ''Para one.'' @ [CHR 0x0A] @ ''This mentions FOIA here.'' @ [CHR 0x0A]
     @ ''Para three about public RECORDS LAW.''"

definition reading_world :: "nat world" where
  "reading_world = quiet_world\<lparr>fetch_plaintext := (\<lambda>u. Inr spec_text)\<rparr>"

definition six_grafs :: "nat article" where
  "six_grafs =
     (new_article ''AP'' ''City denies records request'' ''http://example.com/a'')
       \<lparr>matching_grafs := [''foia 1'', ''foia 2'', ''foia 3'', ''foia 4'', ''foia 5'', ''foia 6'']\<rparr>"

definition one_graf :: "nat article" where
  "one_graf =
     (new_article ''AP'' ''City denies records request'' ''http://example.com/a'')
       \<lparr>matching_grafs := [''This mentions FOIA here.'']\<rparr>"

definition spec_article :: "nat article" where
  "spec_article = new_article ''AP'' ''City denies records request'' ''http://example.com/a''"

text \<open>
  A row records an article when it carries its title, outlet and URL, and its flag is
  the \<open>tweeted\<close> attribute the article has after the body of the loop.
\<close>

definition recorded_as :: "'img world \<Rightarrow> 'img article \<Rightarrow> row \<Rightarrow> bool" where
  "recorded_as w a r \<longleftrightarrow>
     row_title r = title a \<and> row_outlet r = outlet a \<and> row_url r = url a \<and>
     (case snd (check_and_tweet w a) of Inl e \<Rightarrow> False | Inr a' \<Rightarrow> row_tweeted r = tweeted a')"

definition two_entries :: "(string \<rightharpoonup> string) list" where
  "two_entries =
     [[''title'' \<mapsto> ''First'', ''link'' \<mapsto> ''http://example.com/a?x=1''],
      [''title'' \<mapsto> ''Second'', ''link'' \<mapsto> ''http://example.com/b'']]"

definition feed_world :: "nat world" where
  "feed_world =
     quiet_world\<lparr>feed_entries := (\<lambda>u. two_entries),
       fetch_plaintext := (\<lambda>u. if u = ''http://example.com/a'' then Inr spec_text
                                else Inr ''Nothing here.'')\<rparr>"

definition no_post_world :: "nat world" where
  "no_post_world =
     feed_world\<lparr>update_status := (\<lambda>status media_ids. Inl (External ''post failed''))\<rparr>"

definition no_text_world :: "nat world" where
  "no_text_world =
     feed_world\<lparr>fetch_plaintext := (\<lambda>u. if u = ''http://example.com/a''
                                then Inl (External ''fetch failed'') else Inr ''Nothing here.'')\<rparr>"

definition bad_feed_world :: "nat world" where
  "bad_feed_world =
     feed_world\<lparr>feed_entries := (\<lambda>u.
        [[''title'' \<mapsto> ''First'', ''link'' \<mapsto> ''http://example.com/a?x=1''],
         [''title'' \<mapsto> ''No link''],
         [''title'' \<mapsto> ''Second'', ''link'' \<mapsto> ''http://example.com/b'']])\<rparr>"

definition first_article :: "nat article" where
  "first_article = new_article ''Wire'' ''First'' ''http://example.com/a''"

definition second_article :: "nat article" where
  "second_article = new_article ''Wire'' ''Second'' ''http://example.com/b''"

definition seen_db :: "row list" where
  "seen_db =
     [\<lparr>row_title = ''Second'', row_outlet = ''Wire'', row_url = ''http://example.com/b'',
       row_tweeted = False, recorded_at = 0\<rparr>]"

section \<open>Properties\<close>

subsection \<open>Splitting, substrings and the URL cleaner\<close>

lemma split_on_nonempty: "split_on c s \<noteq> []"
  by (induction s) (auto split: list.splits)

lemma hd_split_on: "hd (split_on c s) = takeWhile (\<lambda>x. x \<noteq> c) s"
  by (induction s) (auto split: list.splits simp: split_on_nonempty)

lemma join_split_on: "join_with c (split_on c s) = s"
proof (induction s)
  case Nil
  show ?case by simp
next
  case (Cons x xs)
  obtain w ws where ws: "split_on c xs = w # ws"
    using split_on_nonempty [of c xs] by (cases "split_on c xs") auto
  with Cons show ?case by (cases ws) auto
qed

lemma split_on_no_sep: "w \<in> set (split_on c s) \<Longrightarrow> c \<notin> set w"
  by (induction s arbitrary: w) (auto split: list.splits if_splits)

lemma takeWhile_neq_id: "c \<notin> set u \<Longrightarrow> takeWhile (\<lambda>x. x \<noteq> c) u = u"
  by (induction u) auto

lemma sep_notin_takeWhile: "c \<notin> set (takeWhile (\<lambda>x. x \<noteq> c) u)"
  by (induction u) auto

lemma notin_takeWhile: "d \<notin> set u \<Longrightarrow> d \<notin> set (takeWhile P u)"
  by (induction u) auto

lemma strip2_clean:
  "c \<notin> set (hd (split_on d (hd (split_on c u)))) \<and> d \<notin> set (hd (split_on d (hd (split_on c u))))"
  by (simp only: hd_split_on sep_notin_takeWhile notin_takeWhile not_False_eq_True simp_thms)

lemma strip2_fixed:
  "c \<notin> set u \<Longrightarrow> d \<notin> set u \<Longrightarrow> hd (split_on d (hd (split_on c u))) = u"
  by (simp add: hd_split_on takeWhile_neq_id)

lemma decruft_url_clean: "CHR ''?'' \<notin> set (decruft_url u) \<and> CHR ''#'' \<notin> set (decruft_url u)"
  unfolding decruft_url_def by (rule strip2_clean)

lemma decruft_url_fixed:
  "CHR ''?'' \<notin> set u \<Longrightarrow> CHR ''#'' \<notin> set u \<Longrightarrow> decruft_url u = u"
  unfolding decruft_url_def by (rule strip2_fixed)

lemma decruft_url_idem: "decruft_url (decruft_url u) = decruft_url u"
  using decruft_url_clean [of u] decruft_url_fixed [of "decruft_url u"] by blast

lemma startswith_iff: "startswith s p \<longleftrightarrow> (\<exists>b. s = p @ b)"
  by (induction s p rule: startswith.induct) auto

lemma str_in_iff: "str_in p s \<longleftrightarrow> (\<exists>a b. s = a @ p @ b)"
proof (induction s)
  case Nil
  show ?case by auto
next
  case (Cons c cs)
  show ?case
  proof
    assume "str_in p (c # cs)"
    then consider "startswith (c # cs) p" | "str_in p cs" by auto
    then show "\<exists>a b. c # cs = a @ p @ b"
    proof cases
      case 1
      then obtain b where "c # cs = p @ b" by (auto simp: startswith_iff)
      then have "c # cs = [] @ p @ b" by simp
      then show ?thesis by blast
    next
      case 2
      with Cons obtain a b where "cs = a @ p @ b" by auto
      then have "c # cs = (c # a) @ p @ b" by simp
      then show ?thesis by blast
    qed
  next
    assume "\<exists>a b. c # cs = a @ p @ b"
    then obtain a b where ab: "c # cs = a @ p @ b" by auto
    show "str_in p (c # cs)"
    proof (cases a)
      case Nil
      with ab have "startswith (c # cs) p" by (auto simp: startswith_iff)
      then show ?thesis by simp
    next
      case (Cons x a')
      with ab have "cs = a' @ p @ b" by simp
      with Cons.IH have "str_in p cs" by blast
      then show ?thesis by simp
    qed
  qed
qed

lemma match_loop_filter:
  "match_loop grafs a = a\<lparr>matching_grafs := matching_grafs a @ filter any_phrase_in grafs\<rparr>"
  by (induction grafs arbitrary: a) auto

lemma lower_FOIA: "map lower FOIA_PHRASES = FOIA_PHRASES"
  by code_simp

subsection \<open>The two loops of tweet\<close>

lemma rendered_append: "rendered (xs @ ys) = rendered xs @ rendered ys"
  by (induction xs rule: rendered.induct) auto

lemma posted_append: "posted (xs @ ys) = posted xs @ posted ys"
  by (induction xs rule: posted.induct) auto

lemma render_loop_events:
  "\<exists>n. fst (render_loop w grafs width a) = map (\<lambda>g. Render_img g width) (take n grafs)"
proof (induction grafs arbitrary: a)
  case Nil
  show ?case by simp
next
  case (Cons g gs)
  show ?case
  proof (cases "render_img w g width")
    case (Inl e)
    then have "fst (render_loop w (g # gs) width a) = map (\<lambda>g. Render_img g width) (take 1 (g # gs))"
      by simp
    then show ?thesis by blast
  next
    case (Inr im)
    from Cons [of "a\<lparr>imgs := imgs a @ [im]\<rparr>"] obtain n where
      "fst (render_loop w gs width (a\<lparr>imgs := imgs a @ [im]\<rparr>)) = map (\<lambda>g. Render_img g width) (take n gs)"
      by blast
    with Inr have "fst (render_loop w (g # gs) width a) = map (\<lambda>g. Render_img g width) (take (Suc n) (g # gs))"
      by (simp add: split_beta)
    then show ?thesis by blast
  qed
qed

lemma render_loop_ok:
  "snd (render_loop w grafs width a) = Inr a1 \<Longrightarrow>
     fst (render_loop w grafs width a) = map (\<lambda>g. Render_img g width) grafs \<and>
     (\<exists>new. imgs a1 = imgs a @ new \<and> length new = length grafs) \<and>
     outlet a1 = outlet a \<and> title a1 = title a \<and> url a1 = url a \<and>
     matching_grafs a1 = matching_grafs a \<and> tweeted a1 = tweeted a"
proof (induction grafs arbitrary: a)
  case Nil
  then show ?case by simp
next
  case (Cons g gs)
  show ?case
  proof (cases "render_img w g width")
    case (Inl e)
    with Cons.prems show ?thesis by simp
  next
    case (Inr im)
    let ?a = "a\<lparr>imgs := imgs a @ [im]\<rparr>"
    from Inr Cons.prems have "snd (render_loop w gs width ?a) = Inr a1"
      by (simp add: split_beta)
    from Cons.IH [OF this] obtain new where
      "fst (render_loop w gs width ?a) = map (\<lambda>g. Render_img g width) gs"
      "imgs a1 = imgs ?a @ new" "length new = length gs"
      "outlet a1 = outlet a" "title a1 = title a" "url a1 = url a"
      "matching_grafs a1 = matching_grafs a" "tweeted a1 = tweeted a"
      by auto
    moreover from this have "imgs a1 = imgs a @ (im # new)" "length (im # new) = length (g # gs)"
      by simp_all
    ultimately show ?thesis using Inr by (simp add: split_beta)
  qed
qed

lemma rendered_map: "rendered (map (\<lambda>g. Render_img g width) gs) = map (\<lambda>g. (g, width)) gs"
  by (induction gs) auto

lemma posted_map_render: "posted (map (\<lambda>g. Render_img g width) gs) = []"
  by (induction gs) auto

lemma upload_loop_ids: "snd (upload_loop w is ids) = ids"
  by (induction "is") (simp_all add: split_beta split: sum.splits)

lemma upload_loop_events: "fst (upload_loop w is ids) = replicate (length is) Upload_media"
  by (induction "is") (simp_all add: split_beta split: sum.splits)

lemma rendered_replicate_upload: "rendered (replicate n Upload_media) = []"
  by (induction n) auto

lemma posted_replicate_upload: "posted (replicate n Upload_media) = []"
  by (induction n) auto

lemma tweet_cases:
  obtains
    (render_fails) n e where
      "tweet w a = (Tweet (url a) # map (\<lambda>g. Render_img g (tweet_width a)) (take n (take 4 (matching_grafs a))), Inl e)"
  | (no_twitter) e where
      "tweet w a = (Tweet (url a) # map (\<lambda>g. Render_img g (tweet_width a)) (take 4 (matching_grafs a)), Inl e)"
  | (posted) a1 new where
      "snd (render_loop w (take 4 (matching_grafs a)) (tweet_width a) a) = Inr a1"
      "imgs a1 = imgs a @ new" "length new = min 4 (length (matching_grafs a))"
      "tweet w a =
         (Tweet (url a) # map (\<lambda>g. Render_img g (tweet_width a)) (take 4 (matching_grafs a))
            @ replicate (length (imgs a1)) Upload_media @ [Update_status (status_text a) []],
          case update_status w (status_text a) [] of
            Inl e \<Rightarrow> Inl e
          | Inr u \<Rightarrow> Inr (a1\<lparr>tweeted := True\<rparr>))"
proof -
  let ?gs = "take 4 (matching_grafs a)"
  let ?wd = "tweet_width a"
  obtain ev1 r1 where rl: "render_loop w ?gs ?wd a = (ev1, r1)"
    by (cases "render_loop w ?gs ?wd a") auto
  show thesis
  proof (cases r1)
    case (Inl e)
    obtain n where "ev1 = map (\<lambda>g. Render_img g ?wd) (take n ?gs)"
      using render_loop_events [of w ?gs ?wd a] rl by auto
    with rl Inl have "tweet w a = (Tweet (url a) # map (\<lambda>g. Render_img g ?wd) (take n ?gs), Inl e)"
      by (simp add: tweet_def tweet_width_def)
    then show ?thesis by (rule render_fails)
  next
    case (Inr a1)
    with rl have ok: "snd (render_loop w ?gs ?wd a) = Inr a1" by simp
    note facts = render_loop_ok [OF ok]
    from facts rl have ev1: "ev1 = map (\<lambda>g. Render_img g ?wd) ?gs" by simp
    from facts obtain new where new: "imgs a1 = imgs a @ new" "length new = length ?gs" by blast
    from facts have st: "status_text a1 = status_text a" by (simp add: status_text_def)
    show ?thesis
    proof (cases "get_twitter_instance w")
      case (Inl e)
      with rl Inr ev1 have "tweet w a = (Tweet (url a) # map (\<lambda>g. Render_img g ?wd) ?gs, Inl e)"
        by (simp add: tweet_def tweet_width_def)
      then show ?thesis by (rule no_twitter)
    next
      case tw: (Inr u)
      obtain ev2 ids where ul: "upload_loop w (imgs a1) [] = (ev2, ids)"
        by (cases "upload_loop w (imgs a1) []") auto
      have ids: "ids = []" using upload_loop_ids [of w "imgs a1" "[]"] ul by simp
      have ev2: "ev2 = replicate (length (imgs a1)) Upload_media"
        using upload_loop_events [of w "imgs a1" "[]"] ul by simp
      have "tweet w a =
         (Tweet (url a) # map (\<lambda>g. Render_img g ?wd) ?gs
            @ replicate (length (imgs a1)) Upload_media @ [Update_status (status_text a) []],
          case update_status w (status_text a) [] of
            Inl e \<Rightarrow> Inl e
          | Inr u \<Rightarrow> Inr (a1\<lparr>tweeted := True\<rparr>))"
        using rl Inr tw ul ids ev1 ev2 st
        by (simp add: tweet_def tweet_width_def)
      moreover have "length new = min 4 (length (matching_grafs a))" using new by simp
      ultimately show ?thesis using ok new(1) by (intro posted) 
    qed
  qed
qed

subsection \<open>Canonical URLs\<close>

lemma any_phrase_in_iff:
  "any_phrase_in graf \<longleftrightarrow>
     (\<exists>phrase\<in>set FOIA_PHRASES. \<exists>pre post. lower graf = pre @ lower phrase @ post)"
  by (simp only: any_phrase_in_def list_ex_iff str_in_iff)

lemma filter_any_phrase_in:
  "filter (\<lambda>graf. \<exists>phrase\<in>set FOIA_PHRASES. \<exists>pre post. lower graf = pre @ lower phrase @ post) grafs
     = filter any_phrase_in grafs"
  by (rule filter_cong) (simp_all only: any_phrase_in_iff)

text \<open>
  C7, as amended: canonicalizing an article a second time changes nothing when the outlet
  needs no redirect lookup, that is for every outlet but ProPublica and Reuters, and for
  these two when the lookup sends the canonical URL to itself; \<open>decruft_url\<close> is
  idempotent on every URL. The counterexample below is a lookup that sends the stripped
  URL elsewhere.
\<close>

theorem canonicalize_url_twice:
  assumes "canonicalize_url w a = Inr a1"
    and "outlet a \<in> set [''ProPublica'', ''Reuters''] \<Longrightarrow>
           resolve_redirect w (url a1) = Inr (url a1)"
  shows "canonicalize_url w a1 = Inr a1 \<and> decruft_url (decruft_url u) = decruft_url u"
proof -
  obtain u0 where u0: "(if outlet a \<in> set [''ProPublica'', ''Reuters'']
            then resolve_redirect w (url a) else Inr (url a)) = Inr u0"
    and a1: "a1 = a\<lparr>url := (if outlet a \<notin> set [''AP''] then decruft_url u0 else u0)\<rparr>"
    using assms(1) unfolding canonicalize_url_def by (auto split: sum.splits)
  have o1: "outlet a1 = outlet a" using a1 by simp
  have "canonicalize_url w a1 = Inr a1"
  proof (cases "outlet a \<in> set [''ProPublica'', ''Reuters'']")
    case True
    then have nap: "outlet a \<notin> set [''AP'']" by auto
    with a1 have "url a1 = decruft_url u0" by simp
    then have "decruft_url (url a1) = url a1" by (simp add: decruft_url_idem)
    with True nap assms(2) o1 show ?thesis
      unfolding canonicalize_url_def by simp
  next
    case False
    show ?thesis
    proof (cases "outlet a \<in> set [''AP'']")
      case True
      with False a1 o1 u0 show ?thesis
        unfolding canonicalize_url_def by simp
    next
      case nap: False
      with a1 have "url a1 = decruft_url u0" by simp
      then have "decruft_url (url a1) = url a1" by (simp add: decruft_url_idem)
      with False nap o1 show ?thesis
        unfolding canonicalize_url_def by simp
    qed
  qed
  then show ?thesis by (simp add: decruft_url_idem)
qed

theorem canonicalize_url_twice_witness:
  "canonicalize_url quiet_world (new_article ''Reuters'' ''T'' ''http://r.example/x?id=1#top'')
     = Inr (new_article ''Reuters'' ''T'' ''http://r.example/x'')
   \<and> canonicalize_url quiet_world (new_article ''Reuters'' ''T'' ''http://r.example/x'')
     = Inr (new_article ''Reuters'' ''T'' ''http://r.example/x'')"
proof -
  have h1: "canonicalize_url quiet_world (new_article ''Reuters'' ''T'' ''http://r.example/x?id=1#top'')
     = Inr (new_article ''Reuters'' ''T'' ''http://r.example/x'')"
    by (simp add: canonicalize_url_def quiet_world_def new_article_def resolve_redirect_def
        decruft_url_def)
  have h2: "resolve_redirect quiet_world (url (new_article ''Reuters'' ''T'' ''http://r.example/x''))
     = Inr (url (new_article ''Reuters'' ''T'' ''http://r.example/x''))"
    by (simp add: quiet_world_def resolve_redirect_def)
  from canonicalize_url_twice [OF h1 h2] h1 show ?thesis by simp
qed

theorem canonicalize_url_not_idempotent:
  "canonicalize_url moving_world (new_article ''Reuters'' ''T'' ''http://r.example/x?id=1'')
     = Inr (new_article ''Reuters'' ''T'' ''http://r.example/y'')
   \<and> canonicalize_url moving_world (new_article ''Reuters'' ''T'' ''http://r.example/y'')
     = Inr (new_article ''Reuters'' ''T'' ''http://r.example/z'')
   \<and> new_article ''Reuters'' ''T'' ''http://r.example/z'' \<noteq> new_article ''Reuters'' ''T'' ''http://r.example/y''"
  by (simp add: canonicalize_url_def moving_world_def quiet_world_def new_article_def
      resolve_redirect_def decruft_url_def)

subsection \<open>What tweet renders and posts\<close>

lemma tweet_rendered:
  "\<exists>n. rendered (fst (tweet w a)) = map (\<lambda>g. (g, tweet_width a)) (take n (take 4 (matching_grafs a)))"
proof (cases rule: tweet_cases [of w a])
  case (render_fails n e)
  then show ?thesis by (auto simp: rendered_map)
next
  case (no_twitter e)
  then have "rendered (fst (tweet w a)) = map (\<lambda>g. (g, tweet_width a)) (take 4 (take 4 (matching_grafs a)))"
    by (simp add: rendered_map)
  then show ?thesis by blast
next
  case (posted a1 new)
  then have "rendered (fst (tweet w a)) = map (\<lambda>g. (g, tweet_width a)) (take 4 (take 4 (matching_grafs a)))"
    by (simp add: rendered_map rendered_append rendered_replicate_upload)
  then show ?thesis by blast
qed

lemma tweet_ok:
  assumes "snd (tweet w a) = Inr a'"
  shows "fst (tweet w a) =
           Tweet (url a) # map (\<lambda>g. Render_img g (tweet_width a)) (take 4 (matching_grafs a))
             @ replicate (length (imgs a')) Upload_media @ [Update_status (status_text a) []]"
    and "length (imgs a') = length (imgs a) + min 4 (length (matching_grafs a))"
    and "outlet a' = outlet a" "title a' = title a" "url a' = url a"
    and "matching_grafs a' = matching_grafs a" "tweeted a'"
    and "update_status w (status_text a) [] = Inr ()"
proof -
  have "fst (tweet w a) =
           Tweet (url a) # map (\<lambda>g. Render_img g (tweet_width a)) (take 4 (matching_grafs a))
             @ replicate (length (imgs a')) Upload_media @ [Update_status (status_text a) []]
     \<and> length (imgs a') = length (imgs a) + min 4 (length (matching_grafs a))
     \<and> outlet a' = outlet a \<and> title a' = title a \<and> url a' = url a
     \<and> matching_grafs a' = matching_grafs a \<and> tweeted a'
     \<and> update_status w (status_text a) [] = Inr ()"
  proof (cases rule: tweet_cases [of w a])
    case (render_fails n e)
    with assms show ?thesis by simp
  next
    case (no_twitter e)
    with assms show ?thesis by simp
  next
    case (posted a1 new)
    note rl = render_loop_ok [OF posted(1)]
    from posted(4) assms have a': "a' = a1\<lparr>tweeted := True\<rparr>"
      and up: "update_status w (status_text a) [] = Inr ()"
      by (auto split: sum.splits)
    from a' posted(2,3) rl up posted(4) show ?thesis by simp
  qed
  then show "fst (tweet w a) =
           Tweet (url a) # map (\<lambda>g. Render_img g (tweet_width a)) (take 4 (matching_grafs a))
             @ replicate (length (imgs a')) Upload_media @ [Update_status (status_text a) []]"
    and "length (imgs a') = length (imgs a) + min 4 (length (matching_grafs a))"
    and "outlet a' = outlet a" "title a' = title a" "url a' = url a"
    and "matching_grafs a' = matching_grafs a" "tweeted a'"
    and "update_status w (status_text a) [] = Inr ()"
    by simp_all
qed

lemma tweet_posted:
  "posted (fst (tweet w a)) = [] \<or> posted (fst (tweet w a)) = [(status_text a, [])]"
  by (cases rule: tweet_cases [of w a])
    (simp_all add: posted_map_render posted_append posted_replicate_upload)

lemma tweet_ok_posted:
  "snd (tweet w a) = Inr a' \<Longrightarrow> posted (fst (tweet w a)) = [(status_text a, [])]"
  by (simp add: tweet_ok(1) posted_map_render posted_append posted_replicate_upload)

lemma tweet_ok_rendered:
  "snd (tweet w a) = Inr a' \<Longrightarrow>
     rendered (fst (tweet w a)) = map (\<lambda>g. (g, tweet_width a)) (take 4 (matching_grafs a))"
  by (simp add: tweet_ok(1) rendered_map rendered_append rendered_replicate_upload)

text \<open>
  C8: \<open>tweet\<close> renders with width 60 when exactly one paragraph matched and with width
  35 when two or more did; it renders at most four paragraphs, the first four when none
  of the renderings fails, and the post carries at most four media identifiers.
\<close>

theorem tweet_width_and_cap:
  "length (rendered (fst (tweet w a))) \<le> 4
   \<and> (length (matching_grafs a) = 1 \<longrightarrow> (\<forall>(g, wd)\<in>set (rendered (fst (tweet w a))). wd = 60))
   \<and> (2 \<le> length (matching_grafs a) \<longrightarrow> (\<forall>(g, wd)\<in>set (rendered (fst (tweet w a))). wd = 35))
   \<and> (\<forall>a'. snd (tweet w a) = Inr a' \<longrightarrow>
          map fst (rendered (fst (tweet w a))) = take 4 (matching_grafs a)
          \<and> length (imgs a') = length (imgs a) + min 4 (length (matching_grafs a)))
   \<and> (\<forall>(s, ids)\<in>set (posted (fst (tweet w a))). length ids \<le> 4)"
proof -
  obtain n where r: "rendered (fst (tweet w a)) =
      map (\<lambda>g. (g, tweet_width a)) (take n (take 4 (matching_grafs a)))"
    using tweet_rendered by blast
  have c1: "length (rendered (fst (tweet w a))) \<le> 4"
    unfolding r by simp
  have c2: "length (matching_grafs a) = 1 \<longrightarrow> (\<forall>(g, wd)\<in>set (rendered (fst (tweet w a))). wd = 60)"
    unfolding r by (auto simp: tweet_width_def)
  have c3: "2 \<le> length (matching_grafs a) \<longrightarrow> (\<forall>(g, wd)\<in>set (rendered (fst (tweet w a))). wd = 35)"
    unfolding r by (auto simp: tweet_width_def)
  have c4: "\<forall>a'. snd (tweet w a) = Inr a' \<longrightarrow>
          map fst (rendered (fst (tweet w a))) = take 4 (matching_grafs a)
          \<and> length (imgs a') = length (imgs a) + min 4 (length (matching_grafs a))"
    by (auto simp: tweet_ok_rendered tweet_ok(2) comp_def)
  have c5: "\<forall>(s, ids)\<in>set (posted (fst (tweet w a))). length ids \<le> 4"
    using tweet_posted [of w a] by auto
  from c1 c2 c3 c4 c5 show ?thesis by blast
qed

lemma tweet_six_grafs:
  "tweet quiet_world six_grafs =
     ([Tweet ''http://example.com/a'',
       Render_img ''foia 1'' 35, Render_img ''foia 2'' 35, Render_img ''foia 3'' 35,
       Render_img ''foia 4'' 35,
       Upload_media, Upload_media, Upload_media, Upload_media,
       Update_status ''AP: City denies records request http://example.com/a'' []],
      Inr (six_grafs\<lparr>imgs := [6, 6, 6, 6], tweeted := True\<rparr>))"
  by (simp add: tweet_def six_grafs_def quiet_world_def new_article_def status_text_def
      upload_one_def)

lemma tweet_one_graf:
  "tweet quiet_world one_graf =
     ([Tweet ''http://example.com/a'',
       Render_img ''This mentions FOIA here.'' 60,
       Upload_media,
       Update_status ''AP: City denies records request http://example.com/a'' []],
      Inr (one_graf\<lparr>imgs := [24], tweeted := True\<rparr>))"
  by (simp add: tweet_def one_graf_def quiet_world_def new_article_def status_text_def
      upload_one_def)

theorem tweet_width_and_cap_witness:
  "length (matching_grafs one_graf) = 1
   \<and> rendered (fst (tweet quiet_world one_graf)) = [(''This mentions FOIA here.'', 60)]
   \<and> 2 \<le> length (matching_grafs six_grafs)
   \<and> rendered (fst (tweet quiet_world six_grafs))
       = [(''foia 1'', 35), (''foia 2'', 35), (''foia 3'', 35), (''foia 4'', 35)]
   \<and> snd (tweet quiet_world six_grafs) = Inr (six_grafs\<lparr>imgs := [6, 6, 6, 6], tweeted := True\<rparr>)
   \<and> map fst (rendered (fst (tweet quiet_world six_grafs))) = take 4 (matching_grafs six_grafs)
   \<and> posted (fst (tweet quiet_world six_grafs))
       = [(''AP: City denies records request http://example.com/a'', [])]"
proof -
  have l1: "length (matching_grafs one_graf) = 1" by (simp add: one_graf_def)
  have l6: "2 \<le> length (matching_grafs six_grafs)" by (simp add: six_grafs_def)
  have s6: "snd (tweet quiet_world six_grafs) = Inr (six_grafs\<lparr>imgs := [6, 6, 6, 6], tweeted := True\<rparr>)"
    by (simp add: tweet_six_grafs)
  have "map fst (rendered (fst (tweet quiet_world six_grafs))) = take 4 (matching_grafs six_grafs)"
    using tweet_width_and_cap [of quiet_world six_grafs] s6 by blast
  moreover have "\<forall>(g, wd)\<in>set (rendered (fst (tweet quiet_world one_graf))). wd = 60"
    using tweet_width_and_cap [of quiet_world one_graf] l1 by blast
  ultimately show ?thesis using l1 l6 s6
    by (simp add: tweet_six_grafs tweet_one_graf)
qed

subsection \<open>The phrase matcher\<close>

lemma check_for_matches_ok:
  "clean_article w a = Inr plaintext \<Longrightarrow>
     check_for_matches w a =
       ([Check_for_matches (url a)],
        Inr (a\<lparr>matching_grafs :=
               matching_grafs a @ filter any_phrase_in (split_on (CHR 0x0A) plaintext)\<rparr>))"
  by (simp add: check_for_matches_def match_loop_filter)

lemma check_for_matches_fails:
  "clean_article w a = Inl e \<Longrightarrow> check_for_matches w a = ([Check_for_matches (url a)], Inl e)"
  by (simp add: check_for_matches_def)

lemma spec_text_grafs:
  "split_on (CHR 0x0A) spec_text =
     [''Para one.'', ''This mentions FOIA here.'', ''Para three about public RECORDS LAW.'']"
  by (simp add: spec_text_def)

lemma spec_text_matches:
  "filter any_phrase_in
     [''Para one.'', ''This mentions FOIA here.'', ''Para three about public RECORDS LAW.'']
   = [''This mentions FOIA here.'', ''Para three about public RECORDS LAW.'']"
  by code_simp

text \<open>
  C3: when the text of the article is fetched, the paragraphs that \<open>check_for_matches\<close>
  adds to an article without matches are exactly the pieces of the text between newlines
  whose lowercase form contains a lowercase phrase of the lexicon, in their order, in
  their original case and as often as they occur; there is none exactly when no piece
  contains a phrase.
\<close>

theorem check_for_matches_paragraphs:
  assumes "clean_article w a = Inr plaintext" and "matching_grafs a = []"
  shows "\<exists>a'. snd (check_for_matches w a) = Inr a'
     \<and> matching_grafs a' =
         filter (\<lambda>graf. \<exists>phrase\<in>set FOIA_PHRASES. \<exists>pre post. lower graf = pre @ lower phrase @ post)
           (split_on (CHR 0x0A) plaintext)
     \<and> join_with (CHR 0x0A) (split_on (CHR 0x0A) plaintext) = plaintext
     \<and> (\<forall>graf\<in>set (split_on (CHR 0x0A) plaintext). CHR 0x0A \<notin> set graf)
     \<and> (matching_grafs a' = [] \<longleftrightarrow>
          (\<forall>graf\<in>set (split_on (CHR 0x0A) plaintext).
             \<not> (\<exists>phrase\<in>set FOIA_PHRASES. \<exists>pre post. lower graf = pre @ lower phrase @ post)))
     \<and> map lower FOIA_PHRASES = FOIA_PHRASES"
proof -
  let ?grafs = "split_on (CHR 0x0A) plaintext"
  let ?a' = "a\<lparr>matching_grafs := matching_grafs a @ filter any_phrase_in ?grafs\<rparr>"
  have 1: "snd (check_for_matches w a) = Inr ?a'"
    using assms(1) by (simp add: check_for_matches_ok)
  have 2: "matching_grafs ?a' =
         filter (\<lambda>graf. \<exists>phrase\<in>set FOIA_PHRASES. \<exists>pre post. lower graf = pre @ lower phrase @ post) ?grafs"
    using assms(2) by (simp only: filter_any_phrase_in) simp
  have 3: "join_with (CHR 0x0A) ?grafs = plaintext" by (rule join_split_on)
  have 4: "\<forall>graf\<in>set ?grafs. CHR 0x0A \<notin> set graf"
    using split_on_no_sep by blast
  have 5: "matching_grafs ?a' = [] \<longleftrightarrow>
          (\<forall>graf\<in>set ?grafs.
             \<not> (\<exists>phrase\<in>set FOIA_PHRASES. \<exists>pre post. lower graf = pre @ lower phrase @ post))"
    unfolding 2 by (simp only: filter_empty_conv)
  from 1 2 3 4 5 lower_FOIA show ?thesis by blast
qed

theorem check_for_matches_paragraphs_witness:
  "clean_article reading_world spec_article = Inr spec_text
   \<and> matching_grafs spec_article = []
   \<and> split_on (CHR 0x0A) spec_text =
       [''Para one.'', ''This mentions FOIA here.'', ''Para three about public RECORDS LAW.'']
   \<and> (\<exists>a'. snd (check_for_matches reading_world spec_article) = Inr a'
        \<and> matching_grafs a' =
            [''This mentions FOIA here.'', ''Para three about public RECORDS LAW.''])"
proof -
  have h1: "clean_article reading_world spec_article = Inr spec_text"
    by (simp add: clean_article_def reading_world_def quiet_world_def)
  have h2: "matching_grafs spec_article = []"
    by (simp add: spec_article_def new_article_def)
  from check_for_matches_paragraphs [OF h1 h2] obtain a' where
    "snd (check_for_matches reading_world spec_article) = Inr a'"
    "matching_grafs a' =
         filter (\<lambda>graf. \<exists>phrase\<in>set FOIA_PHRASES. \<exists>pre post. lower graf = pre @ lower phrase @ post)
           (split_on (CHR 0x0A) spec_text)"
    by blast
  then have "snd (check_for_matches reading_world spec_article) = Inr a'
     \<and> matching_grafs a' = [''This mentions FOIA here.'', ''Para three about public RECORDS LAW.'']"
    by (simp only: filter_any_phrase_in spec_text_grafs spec_text_matches)
  then show ?thesis using h1 h2 spec_text_grafs by blast
qed

subsection \<open>The status and its media identifiers\<close>

text \<open>
  C9: every status that \<open>tweet\<close> posts is the outlet, a colon and a space, the title, a
  space and the URL of the article; a tweet that succeeds posted exactly one status.
\<close>

theorem tweet_status_text:
  "(\<forall>(s, ids)\<in>set (posted (fst (tweet w a))). s = outlet a @ '': '' @ title a @ '' '' @ url a)
   \<and> (\<forall>a'. snd (tweet w a) = Inr a' \<longrightarrow>
         map fst (posted (fst (tweet w a))) = [outlet a @ '': '' @ title a @ '' '' @ url a])"
proof -
  have "\<forall>(s, ids)\<in>set (posted (fst (tweet w a))). s = outlet a @ '': '' @ title a @ '' '' @ url a"
    using tweet_posted [of w a] by (auto simp: status_text_def)
  moreover have "\<forall>a'. snd (tweet w a) = Inr a' \<longrightarrow>
         map fst (posted (fst (tweet w a))) = [outlet a @ '': '' @ title a @ '' '' @ url a]"
    by (auto simp: tweet_ok_posted status_text_def)
  ultimately show ?thesis by blast
qed

theorem tweet_status_text_witness:
  "snd (tweet quiet_world one_graf) = Inr (one_graf\<lparr>imgs := [24], tweeted := True\<rparr>)
   \<and> outlet one_graf = ''AP'' \<and> title one_graf = ''City denies records request''
   \<and> url one_graf = ''http://example.com/a''
   \<and> map fst (posted (fst (tweet quiet_world one_graf)))
       = [''AP: City denies records request http://example.com/a'']"
proof -
  have ok: "snd (tweet quiet_world one_graf) = Inr (one_graf\<lparr>imgs := [24], tweeted := True\<rparr>)"
    by (simp add: tweet_one_graf)
  have f: "outlet one_graf = ''AP'' \<and> title one_graf = ''City denies records request''
     \<and> url one_graf = ''http://example.com/a''"
    by (simp add: one_graf_def new_article_def)
  from tweet_status_text [of quiet_world one_graf] ok
  have "map fst (posted (fst (tweet quiet_world one_graf)))
      = [outlet one_graf @ '': '' @ title one_graf @ '' '' @ url one_graf]"
    by blast
  with f ok show ?thesis by simp
qed

text \<open>
  C10: the list of media identifiers that \<open>tweet\<close> passes to \<open>update_status\<close> is empty.
  The body of the \<open>try\<close> never completes: after an upload that succeeds, the lookup of
  the attribute \<open>media_ids\<close> raises, and the handler drops the exception, so the loop
  leaves the local list as it was.
\<close>

theorem tweet_media_ids_empty:
  "(\<forall>(s, ids)\<in>set (posted (fst (tweet w a))). ids = [])
   \<and> (\<forall>a'. snd (tweet w a) = Inr a' \<longrightarrow> map snd (posted (fst (tweet w a))) = [[]])
   \<and> (\<forall>img. \<exists>e. upload_one w img = Inl e)
   \<and> (\<forall>img m. upload_media w img = Inr m \<longrightarrow> upload_one w img = Inl (AttributeError ''media_ids''))
   \<and> snd (upload_loop w images media_ids) = media_ids"
proof -
  have 1: "\<forall>(s, ids)\<in>set (posted (fst (tweet w a))). ids = []"
    using tweet_posted [of w a] by auto
  have 2: "\<forall>a'. snd (tweet w a) = Inr a' \<longrightarrow> map snd (posted (fst (tweet w a))) = [[]]"
    by (auto simp: tweet_ok_posted)
  have 3: "\<forall>img. \<exists>e. upload_one w img = Inl e"
    by (simp add: upload_one_def split: sum.splits)
  have 4: "\<forall>img m. upload_media w img = Inr m \<longrightarrow> upload_one w img = Inl (AttributeError ''media_ids'')"
    by (simp add: upload_one_def)
  from 1 2 3 4 upload_loop_ids [of w images media_ids] show ?thesis by blast
qed

theorem tweet_media_ids_empty_witness:
  "snd (tweet quiet_world six_grafs) = Inr (six_grafs\<lparr>imgs := [6, 6, 6, 6], tweeted := True\<rparr>)
   \<and> upload_media quiet_world 6 = Inr 6
   \<and> upload_one quiet_world 6 = Inl (AttributeError ''media_ids'')
   \<and> map snd (posted (fst (tweet quiet_world six_grafs))) = [[]]"
proof -
  have ok: "snd (tweet quiet_world six_grafs) = Inr (six_grafs\<lparr>imgs := [6, 6, 6, 6], tweeted := True\<rparr>)"
    by (simp add: tweet_six_grafs)
  have up: "upload_media quiet_world 6 = Inr 6"
    by (simp add: quiet_world_def)
  from tweet_media_ids_empty [of quiet_world six_grafs "[]" "[]"] ok up show ?thesis by blast
qed

subsection \<open>The recent URLs and the loop over the articles\<close>

lemma snoc_eq_append_Cons:
  "xs @ [y] = pre @ x # post \<longleftrightarrow>
     (post = [] \<and> xs = pre \<and> y = x) \<or> (\<exists>post'. post = post' @ [y] \<and> xs = pre @ x # post')"
  by (cases post rule: rev_cases) auto

lemma split_snoc_iff:
  "(\<exists>pre post. xs @ [y] = pre @ x # post \<and> P x \<and> length (filter P post) < n) \<longleftrightarrow>
     (y = x \<and> P x \<and> 0 < n) \<or>
     (\<exists>pre post'. xs = pre @ x # post' \<and> P x \<and> length (filter P (post' @ [y])) < n)"
  (is "?L \<longleftrightarrow> ?A \<or> ?B")
proof
  assume ?L
  then obtain pre post where h: "xs @ [y] = pre @ x # post" "P x" "length (filter P post) < n"
    by blast
  from h(1) consider "post = []" "xs = pre" "y = x"
    | post' where "post = post' @ [y]" "xs = pre @ x # post'"
    by (auto simp: snoc_eq_append_Cons)
  then show "?A \<or> ?B"
  proof cases
    case 1
    with h show ?thesis by simp
  next
    case 2
    with h have ?B by blast
    then show ?thesis ..
  qed
next
  assume "?A \<or> ?B"
  then show ?L
  proof
    assume ?A
    then have "xs @ [y] = xs @ x # []" "P x" "length (filter P []) < n" by simp_all
    then show ?L by blast
  next
    assume ?B
    then obtain pre post' where h: "xs = pre @ x # post'" "P x"
      "length (filter P (post' @ [y])) < n" by blast
    then have "xs @ [y] = pre @ x # (post' @ [y])" by simp
    with h show ?L by blast
  qed
qed

lemma in_take_rev_filter:
  "x \<in> set (take n (rev (filter P db))) \<longleftrightarrow>
     (\<exists>pre post. db = pre @ x # post \<and> P x \<and> length (filter P post) < n)"
proof (induction db arbitrary: n rule: rev_induct)
  case Nil
  show ?case by simp
next
  case (snoc y xs)
  show ?case
  proof (cases "P y")
    case False
    then have "x \<in> set (take n (rev (filter P (xs @ [y])))) \<longleftrightarrow>
        (\<exists>pre post. xs = pre @ x # post \<and> P x \<and> length (filter P post) < n)"
      by (simp add: snoc.IH)
    also have "\<dots> \<longleftrightarrow> (\<exists>pre post. xs @ [y] = pre @ x # post \<and> P x \<and> length (filter P post) < n)"
      unfolding split_snoc_iff using False by auto
    finally show ?thesis .
  next
    case True
    show ?thesis
    proof (cases n)
      case 0
      then show ?thesis by simp
    next
      case (Suc m)
      with True have "x \<in> set (take n (rev (filter P (xs @ [y])))) \<longleftrightarrow>
          x = y \<or> (\<exists>pre post. xs = pre @ x # post \<and> P x \<and> length (filter P post) < m)"
        by (simp add: snoc.IH)
      also have "\<dots> \<longleftrightarrow> (\<exists>pre post. xs @ [y] = pre @ x # post \<and> P x \<and> length (filter P post) < n)"
        unfolding split_snoc_iff using True Suc by auto
      finally show ?thesis .
    qed
  qed
qed

lemma recent_urls_iff:
  "u \<in> set (recent_urls db o_name) \<longleftrightarrow>
     (\<exists>pre r post. db = pre @ r # post \<and> row_outlet r = o_name \<and> row_url r = u \<and>
        length (filter (\<lambda>r. row_outlet r = o_name) post) < 1000)"
proof -
  have "u \<in> set (recent_urls db o_name) \<longleftrightarrow>
      (\<exists>r. r \<in> set (take 1000 (rev (filter (\<lambda>r. row_outlet r = o_name) db))) \<and> row_url r = u)"
    by (auto simp: recent_urls_def take_map)
  then show ?thesis
    by (simp only: in_take_rev_filter) blast
qed

lemma length_recent_urls:
  "length (recent_urls db o_name) = min (length (filter (\<lambda>r. row_outlet r = o_name) db)) 1000"
  by (simp add: recent_urls_def)

lemma check_and_tweet_cases:
  obtains
    (no_text) e where
      "clean_article w a = Inl e"
      "check_and_tweet w a = ([Check_for_matches (url a)], Inl e)"
  | (no_match) plaintext a1 where
      "clean_article w a = Inr plaintext"
      "a1 = a\<lparr>matching_grafs :=
               matching_grafs a @ filter any_phrase_in (split_on (CHR 0x0A) plaintext)\<rparr>"
      "matching_grafs a1 = []"
      "check_and_tweet w a = ([Check_for_matches (url a)], Inr a1)"
  | (match) plaintext a1 where
      "clean_article w a = Inr plaintext"
      "a1 = a\<lparr>matching_grafs :=
               matching_grafs a @ filter any_phrase_in (split_on (CHR 0x0A) plaintext)\<rparr>"
      "matching_grafs a1 \<noteq> []"
      "check_and_tweet w a = (Check_for_matches (url a) # fst (tweet w a1), snd (tweet w a1))"
proof (cases "clean_article w a")
  case (Inl e)
  then have "check_and_tweet w a = ([Check_for_matches (url a)], Inl e)"
    by (simp add: check_and_tweet_def check_for_matches_fails)
  with Inl show ?thesis by (rule no_text)
next
  case (Inr plaintext)
  let ?a1 = "a\<lparr>matching_grafs :=
               matching_grafs a @ filter any_phrase_in (split_on (CHR 0x0A) plaintext)\<rparr>"
  show ?thesis
  proof (cases "matching_grafs ?a1 = []")
    case True
    then have "check_and_tweet w a = ([Check_for_matches (url a)], Inr ?a1)"
      using Inr by (simp add: check_and_tweet_def check_for_matches_ok)
    with Inr True show ?thesis by (intro no_match [of plaintext ?a1]) simp_all
  next
    case False
    then have "check_and_tweet w a = (Check_for_matches (url a) # fst (tweet w ?a1), snd (tweet w ?a1))"
      using Inr by (simp add: check_and_tweet_def check_for_matches_ok split_beta)
    with Inr False show ?thesis by (intro match [of plaintext ?a1]) simp_all
  qed
qed

lemma tweet_event_urls:
  "Check_for_matches u \<notin> set (fst (tweet w a))"
  "Tweet u \<in> set (fst (tweet w a)) \<Longrightarrow> u = url a"
  by (cases rule: tweet_cases [of w a]; auto)+

lemma check_and_tweet_urls:
  "Check_for_matches u \<in> set (fst (check_and_tweet w a)) \<Longrightarrow> u = url a"
  "Tweet u \<in> set (fst (check_and_tweet w a)) \<Longrightarrow> u = url a"
  by (cases rule: check_and_tweet_cases [of w a]; auto dest: tweet_event_urls(2) simp: tweet_event_urls(1))+

lemma check_and_tweet_ok:
  assumes "snd (check_and_tweet w a) = Inr a'"
  shows "outlet a' = outlet a" "title a' = title a" "url a' = url a"
proof -
  have "outlet a' = outlet a \<and> title a' = title a \<and> url a' = url a"
  proof (cases rule: check_and_tweet_cases [of w a])
    case (no_text e)
    with assms show ?thesis by simp
  next
    case (no_match plaintext a1)
    from assms no_match(4) have "a' = a1" by simp
    with no_match(2) show ?thesis by simp
  next
    case (match plaintext a1)
    with assms have "snd (tweet w a1) = Inr a'" by simp
    from tweet_ok(3-5) [OF this] match(2) show ?thesis by simp
  qed
  then show "outlet a' = outlet a" "title a' = title a" "url a' = url a" by simp_all
qed

lemma process_articles_fail:
  "snd (check_and_tweet w a) = Inl e \<Longrightarrow>
     process_articles w (a # rest) db = (db, fst (check_and_tweet w a), Some e)"
  by (cases "check_and_tweet w a") simp

lemma process_articles_ok:
  "snd (check_and_tweet w a) = Inr a2 \<Longrightarrow>
     process_articles w (a # rest) db =
       (fst (process_articles w rest (insert_row w a2 db)),
        fst (check_and_tweet w a) @ fst (snd (process_articles w rest (insert_row w a2 db))),
        snd (snd (process_articles w rest (insert_row w a2 db))))"
  by (cases "check_and_tweet w a") (simp add: split_beta)

lemma process_articles_urls:
  "Check_for_matches u \<in> set (fst (snd (process_articles w as db)))
     \<or> Tweet u \<in> set (fst (snd (process_articles w as db))) \<Longrightarrow> u \<in> url ` set as"
proof (induction as arbitrary: db)
  case Nil
  then show ?case by simp
next
  case (Cons a rest)
  show ?case
  proof (cases "snd (check_and_tweet w a)")
    case (Inl e)
    with Cons.prems show ?thesis
      by (auto simp: process_articles_fail simp del: process_articles.simps
          dest: check_and_tweet_urls)
  next
    case (Inr a2)
    with Cons.prems Cons.IH [of "insert_row w a2 db"] show ?thesis
      by (auto simp: process_articles_ok simp del: process_articles.simps
          dest: check_and_tweet_urls)
  qed
qed

lemma process_articles_append:
  "process_articles w (xs @ ys) db =
     (case process_articles w xs db of
        (db1, ev1, Some e) \<Rightarrow> (db1, ev1, Some e)
      | (db1, ev1, None) \<Rightarrow>
          (fst (process_articles w ys db1), ev1 @ fst (snd (process_articles w ys db1)),
           snd (snd (process_articles w ys db1))))"
proof (induction xs arbitrary: db)
  case Nil
  show ?case by simp
next
  case (Cons a rest)
  show ?case
  proof (cases "snd (check_and_tweet w a)")
    case (Inl e)
    then show ?thesis by (simp add: process_articles_fail del: process_articles.simps)
  next
    case (Inr a2)
    then show ?thesis
      by (simp add: process_articles_ok Cons.IH split_beta del: process_articles.simps
          split: option.splits)
  qed
qed

lemma process_articles_rows:
  "\<exists>rows. fst (process_articles w as db) = db @ rows
     \<and> list_all2 (recorded_as w) (take (length rows) as) rows
     \<and> length rows \<le> length as
     \<and> (snd (snd (process_articles w as db)) = None \<longleftrightarrow> length rows = length as)"
proof (induction as arbitrary: db)
  case Nil
  show ?case by simp
next
  case (Cons a rest)
  show ?case
  proof (cases "snd (check_and_tweet w a)")
    case (Inl e)
    have p: "process_articles w (a # rest) db = (db, fst (check_and_tweet w a), Some e)"
      using Inl by (rule process_articles_fail)
    have "fst (process_articles w (a # rest) db) = db @ []"
      unfolding p by simp
    moreover have "list_all2 (recorded_as w) (take (length ([]::row list)) (a # rest)) []"
      by simp
    moreover have "length ([]::row list) \<le> length (a # rest)" by simp
    moreover have "snd (snd (process_articles w (a # rest) db)) = None
        \<longleftrightarrow> length ([]::row list) = length (a # rest)"
      unfolding p by simp
    ultimately have "fst (process_articles w (a # rest) db) = db @ []
      \<and> list_all2 (recorded_as w) (take (length ([]::row list)) (a # rest)) []
      \<and> length ([]::row list) \<le> length (a # rest)
      \<and> (snd (snd (process_articles w (a # rest) db)) = None
        \<longleftrightarrow> length ([]::row list) = length (a # rest))"
      by (intro conjI)
    then show ?thesis by (rule exI [of _ "[]"])
  next
    case (Inr a2)
    let ?r = "\<lparr>row_title = title a2, row_outlet = outlet a2, row_url = url a2,
            row_tweeted = tweeted a2, recorded_at = utcnow w (length db)\<rparr>"
    let ?p = "process_articles w rest (insert_row w a2 db)"
    have p: "process_articles w (a # rest) db =
        (fst ?p, fst (check_and_tweet w a) @ fst (snd ?p), snd (snd ?p))"
      using Inr by (rule process_articles_ok)
    have ins: "insert_row w a2 db = db @ [?r]" by (simp add: insert_row_def)
    have rec: "recorded_as w a ?r"
      using Inr check_and_tweet_ok [OF Inr] by (simp add: recorded_as_def)
    from Cons.IH [of "insert_row w a2 db"] obtain rows where rows:
      "fst ?p = insert_row w a2 db @ rows"
      "list_all2 (recorded_as w) (take (length rows) rest) rows"
      "length rows \<le> length rest"
      "snd (snd ?p) = None \<longleftrightarrow> length rows = length rest"
      by (elim exE conjE) (rule that)
    have 1: "fst (process_articles w (a # rest) db) = db @ (?r # rows)"
      unfolding p using rows(1) ins by simp
    have 2: "list_all2 (recorded_as w) (take (length (?r # rows)) (a # rest)) (?r # rows)"
      using rows(2) rec by simp
    have 3: "length (?r # rows) \<le> length (a # rest)"
      using rows(3) by simp
    have 4: "snd (snd (process_articles w (a # rest) db)) = None
        \<longleftrightarrow> length (?r # rows) = length (a # rest)"
      unfolding p using rows(4) by simp
    from 1 2 3 4 have "fst (process_articles w (a # rest) db) = db @ (?r # rows)
      \<and> list_all2 (recorded_as w) (take (length (?r # rows)) (a # rest)) (?r # rows)
      \<and> length (?r # rows) \<le> length (a # rest)
      \<and> (snd (snd (process_articles w (a # rest) db)) = None
        \<longleftrightarrow> length (?r # rows) = length (a # rest))"
      by (intro conjI)
    then show ?thesis by (rule exI [of _ "?r # rows"])
  qed
qed

lemma process_articles_None_iff:
  "snd (snd (process_articles w as db)) = None \<longleftrightarrow>
     (\<forall>a\<in>set as. \<exists>a'. snd (check_and_tweet w a) = Inr a')"
proof (induction as arbitrary: db)
  case Nil
  show ?case by simp
next
  case (Cons a rest)
  show ?case
  proof (cases "snd (check_and_tweet w a)")
    case (Inl e)
    then show ?thesis by (simp add: process_articles_fail del: process_articles.simps)
  next
    case (Inr a2)
    then show ?thesis by (simp add: process_articles_ok Cons.IH del: process_articles.simps)
  qed
qed

subsection \<open>Example runs\<close>

lemma parse_feed_feed_world:
  "parse_feed feed_world ''Wire'' ''feed'' = Inr [first_article, second_article]"
  by (simp add: parse_feed_def feed_world_def quiet_world_def two_entries_def Article_def
      canonicalize_url_def decruft_url_def first_article_def second_article_def new_article_def)

lemma parse_feed_no_post_world:
  "parse_feed no_post_world ''Wire'' ''feed'' = Inr [first_article, second_article]"
  by (simp add: parse_feed_def no_post_world_def feed_world_def quiet_world_def two_entries_def
      Article_def canonicalize_url_def decruft_url_def first_article_def second_article_def
      new_article_def)

lemma parse_feed_no_text_world:
  "parse_feed no_text_world ''Wire'' ''feed'' = Inr [first_article, second_article]"
  by (simp add: parse_feed_def no_text_world_def feed_world_def quiet_world_def two_entries_def
      Article_def canonicalize_url_def decruft_url_def first_article_def second_article_def
      new_article_def)

lemma spec_text_filter:
  "filter any_phrase_in (split_on (CHR 0x0A) spec_text) =
     [''This mentions FOIA here.'', ''Para three about public RECORDS LAW.'']"
  by (simp only: spec_text_grafs spec_text_matches)

lemma nothing_here_filter:
  "filter any_phrase_in (split_on (CHR 0x0A) ''Nothing here.'') = []"
  by code_simp

lemma check_first_article:
  "check_for_matches feed_world first_article =
     ([Check_for_matches ''http://example.com/a''],
      Inr (first_article\<lparr>matching_grafs :=
        [''This mentions FOIA here.'', ''Para three about public RECORDS LAW.'']\<rparr>))"
proof -
  have "clean_article feed_world first_article = Inr spec_text"
    by (simp add: clean_article_def feed_world_def first_article_def new_article_def)
  from check_for_matches_ok [OF this] show ?thesis
    by (simp only: spec_text_filter) (simp add: first_article_def new_article_def)
qed

lemma check_second_article:
  "check_for_matches feed_world second_article =
     ([Check_for_matches ''http://example.com/b''], Inr second_article)"
proof -
  have "clean_article feed_world second_article = Inr ''Nothing here.''"
    by (simp add: clean_article_def feed_world_def second_article_def new_article_def)
  from check_for_matches_ok [OF this] show ?thesis
    by (simp only: nothing_here_filter) (simp add: second_article_def new_article_def)
qed

lemma check_first_article_no_post:
  "check_for_matches no_post_world first_article =
     ([Check_for_matches ''http://example.com/a''],
      Inr (first_article\<lparr>matching_grafs :=
        [''This mentions FOIA here.'', ''Para three about public RECORDS LAW.'']\<rparr>))"
proof -
  have "clean_article no_post_world first_article = Inr spec_text"
    by (simp add: clean_article_def no_post_world_def feed_world_def first_article_def
        new_article_def)
  from check_for_matches_ok [OF this] show ?thesis
    by (simp only: spec_text_filter) (simp add: first_article_def new_article_def)
qed

lemma tweet_first_article:
  "tweet feed_world (first_article\<lparr>matching_grafs :=
        [''This mentions FOIA here.'', ''Para three about public RECORDS LAW.'']\<rparr>) =
     ([Tweet ''http://example.com/a'',
       Render_img ''This mentions FOIA here.'' 35,
       Render_img ''Para three about public RECORDS LAW.'' 35,
       Upload_media, Upload_media,
       Update_status ''Wire: First http://example.com/a'' []],
      Inr (first_article\<lparr>matching_grafs :=
             [''This mentions FOIA here.'', ''Para three about public RECORDS LAW.''],
             imgs := [24, 36], tweeted := True\<rparr>))"
  by (simp add: tweet_def first_article_def feed_world_def quiet_world_def new_article_def
      status_text_def upload_one_def)

lemma tweet_first_article_no_post:
  "tweet no_post_world (first_article\<lparr>matching_grafs :=
        [''This mentions FOIA here.'', ''Para three about public RECORDS LAW.'']\<rparr>) =
     ([Tweet ''http://example.com/a'',
       Render_img ''This mentions FOIA here.'' 35,
       Render_img ''Para three about public RECORDS LAW.'' 35,
       Upload_media, Upload_media,
       Update_status ''Wire: First http://example.com/a'' []],
      Inl (External ''post failed''))"
  by (simp add: tweet_def first_article_def no_post_world_def feed_world_def quiet_world_def
      new_article_def status_text_def upload_one_def)

lemma check_and_tweet_first_article:
  "check_and_tweet feed_world first_article =
     ([Check_for_matches ''http://example.com/a'',
       Tweet ''http://example.com/a'',
       Render_img ''This mentions FOIA here.'' 35,
       Render_img ''Para three about public RECORDS LAW.'' 35,
       Upload_media, Upload_media,
       Update_status ''Wire: First http://example.com/a'' []],
      Inr (first_article\<lparr>matching_grafs :=
             [''This mentions FOIA here.'', ''Para three about public RECORDS LAW.''],
             imgs := [24, 36], tweeted := True\<rparr>))"
  by (simp add: check_and_tweet_def check_first_article tweet_first_article)

lemma check_and_tweet_second_article:
  "check_and_tweet feed_world second_article =
     ([Check_for_matches ''http://example.com/b''], Inr second_article)"
  by (simp add: check_and_tweet_def check_second_article)
    (simp add: second_article_def new_article_def)

lemma check_and_tweet_first_article_no_post:
  "check_and_tweet no_post_world first_article =
     ([Check_for_matches ''http://example.com/a'',
       Tweet ''http://example.com/a'',
       Render_img ''This mentions FOIA here.'' 35,
       Render_img ''Para three about public RECORDS LAW.'' 35,
       Upload_media, Upload_media,
       Update_status ''Wire: First http://example.com/a'' []],
      Inl (External ''post failed''))"
  by (simp add: check_and_tweet_def check_first_article_no_post tweet_first_article_no_post)

lemma check_and_tweet_first_article_no_text:
  "check_and_tweet no_text_world first_article =
     ([Check_for_matches ''http://example.com/a''], Inl (External ''fetch failed''))"
  by (simp add: check_and_tweet_def check_for_matches_def clean_article_def no_text_world_def
      first_article_def new_article_def)

lemma survivors_empty_db:
  "filter_articles (recent_urls [] ''Wire'') [first_article, second_article]
     = [first_article, second_article]"
  by (simp add: filter_articles_def recent_urls_def)

lemma survivors_seen_db:
  "filter_articles (recent_urls seen_db ''Wire'') [first_article, second_article]
     = [first_article]"
  by (simp add: filter_articles_def recent_urls_def seen_db_def first_article_def
      second_article_def new_article_def)

lemma process_feed_feed_world:
  "process_feed feed_world (''Wire'', ''feed'') [] =
     ([\<lparr>row_title = ''First'', row_outlet = ''Wire'', row_url = ''http://example.com/a'',
        row_tweeted = True, recorded_at = 0\<rparr>,
       \<lparr>row_title = ''Second'', row_outlet = ''Wire'', row_url = ''http://example.com/b'',
        row_tweeted = False, recorded_at = 1\<rparr>],
      [Check_for_matches ''http://example.com/a'',
       Tweet ''http://example.com/a'',
       Render_img ''This mentions FOIA here.'' 35,
       Render_img ''Para three about public RECORDS LAW.'' 35,
       Upload_media, Upload_media,
       Update_status ''Wire: First http://example.com/a'' [],
       Check_for_matches ''http://example.com/b''],
      None)"
  by (simp add: process_feed_def parse_feed_feed_world survivors_empty_db
      check_and_tweet_first_article check_and_tweet_second_article insert_row_def)
    (simp add: first_article_def second_article_def new_article_def feed_world_def
      quiet_world_def)

lemma process_feed_seen_db:
  "process_feed feed_world (''Wire'', ''feed'') seen_db =
     (seen_db @
      [\<lparr>row_title = ''First'', row_outlet = ''Wire'', row_url = ''http://example.com/a'',
        row_tweeted = True, recorded_at = 1\<rparr>],
      [Check_for_matches ''http://example.com/a'',
       Tweet ''http://example.com/a'',
       Render_img ''This mentions FOIA here.'' 35,
       Render_img ''Para three about public RECORDS LAW.'' 35,
       Upload_media, Upload_media,
       Update_status ''Wire: First http://example.com/a'' []],
      None)"
  by (simp add: process_feed_def parse_feed_feed_world survivors_seen_db
      check_and_tweet_first_article insert_row_def)
    (simp add: first_article_def new_article_def feed_world_def quiet_world_def seen_db_def)

lemma process_feed_no_post_world:
  "process_feed no_post_world (''Wire'', ''feed'') [] =
     ([],
      [Check_for_matches ''http://example.com/a'',
       Tweet ''http://example.com/a'',
       Render_img ''This mentions FOIA here.'' 35,
       Render_img ''Para three about public RECORDS LAW.'' 35,
       Upload_media, Upload_media,
       Update_status ''Wire: First http://example.com/a'' []],
      Some (External ''post failed''))"
  by (simp add: process_feed_def parse_feed_no_post_world survivors_empty_db
      check_and_tweet_first_article_no_post)

lemma process_feed_no_text_world:
  "process_feed no_text_world (''Wire'', ''feed'') [] =
     ([], [Check_for_matches ''http://example.com/a''], Some (External ''fetch failed''))"
  by (simp add: process_feed_def parse_feed_no_text_world survivors_empty_db
      check_and_tweet_first_article_no_text)

lemma parse_feed_bad_feed_world:
  "parse_feed bad_feed_world ''Wire'' ''feed'' = Inl (KeyError ''link'')"
  by (simp add: parse_feed_def bad_feed_world_def feed_world_def quiet_world_def Article_def
      canonicalize_url_def decruft_url_def)

subsection \<open>The batch of one feed\<close>

lemma process_feed_parsed:
  "parse_feed w o_name feed_url = Inr articles \<Longrightarrow>
     process_feed w (o_name, feed_url) db =
       process_articles w (filter_articles (recent_urls db o_name) articles) db"
  by (simp add: process_feed_def)

lemma process_feed_not_parsed:
  "parse_feed w o_name feed_url = Inl e \<Longrightarrow>
     process_feed w (o_name, feed_url) db = (db, [], Some e)"
  by (simp add: process_feed_def)

text \<open>
  C1: an article of the feed whose URL is the URL of a row of its outlet, with fewer
  than 1000 later rows of that outlet in the table, does not survive the filter, and the
  batch neither checks nor tweets an article with that URL, whatever ends the batch.
\<close>

theorem seen_url_is_dropped:
  assumes "parse_feed w o_name feed_url = Inr articles"
    and "a \<in> set articles"
    and "db = before @ r # later"
    and "row_outlet r = o_name" and "row_url r = url a"
    and "length (filter (\<lambda>r. row_outlet r = o_name) later) < 1000"
  shows "url a \<in> set (recent_urls db o_name)
     \<and> a \<notin> set (filter_articles (recent_urls db o_name) articles)
     \<and> Check_for_matches (url a) \<notin> set (fst (snd (process_feed w (o_name, feed_url) db)))
     \<and> Tweet (url a) \<notin> set (fst (snd (process_feed w (o_name, feed_url) db)))"
proof -
  let ?survivors = "filter_articles (recent_urls db o_name) articles"
  have seen: "url a \<in> set (recent_urls db o_name)"
    unfolding recent_urls_iff using assms(3-6) by blast
  then have notin: "url a \<notin> url ` set ?survivors"
    by (auto simp: filter_articles_def)
  then have 1: "a \<notin> set ?survivors" by blast
  have pf: "process_feed w (o_name, feed_url) db = process_articles w ?survivors db"
    using assms(1) by (rule process_feed_parsed)
  have 2: "Check_for_matches (url a) \<notin> set (fst (snd (process_feed w (o_name, feed_url) db)))"
    unfolding pf using process_articles_urls [of "url a" w ?survivors db] notin by blast
  have 3: "Tweet (url a) \<notin> set (fst (snd (process_feed w (o_name, feed_url) db)))"
    unfolding pf using process_articles_urls [of "url a" w ?survivors db] notin by blast
  from seen 1 2 3 show ?thesis by (intro conjI)
qed

theorem seen_url_is_dropped_witness:
  "parse_feed feed_world ''Wire'' ''feed'' = Inr [first_article, second_article]
   \<and> url second_article = ''http://example.com/b''
   \<and> ''http://example.com/b'' \<in> set (recent_urls seen_db ''Wire'')
   \<and> second_article \<notin> set (filter_articles (recent_urls seen_db ''Wire'') [first_article, second_article])
   \<and> Check_for_matches ''http://example.com/b''
        \<notin> set (fst (snd (process_feed feed_world (''Wire'', ''feed'') seen_db)))
   \<and> Tweet ''http://example.com/b''
        \<notin> set (fst (snd (process_feed feed_world (''Wire'', ''feed'') seen_db)))
   \<and> Check_for_matches ''http://example.com/a''
        \<in> set (fst (snd (process_feed feed_world (''Wire'', ''feed'') seen_db)))"
proof -
  let ?r = "\<lparr>row_title = ''Second'', row_outlet = ''Wire'', row_url = ''http://example.com/b'',
       row_tweeted = False, recorded_at = 0\<rparr>"
  have u: "url second_article = ''http://example.com/b''"
    by (simp add: second_article_def new_article_def)
  have h2: "second_article \<in> set [first_article, second_article]" by simp
  have h3: "seen_db = [] @ ?r # []" by (simp add: seen_db_def)
  have h4: "row_outlet ?r = ''Wire''" by simp
  have h5: "row_url ?r = url second_article" by (simp add: u)
  have h6: "length (filter (\<lambda>r. row_outlet r = ''Wire'') []) < 1000" by simp
  have other: "Check_for_matches ''http://example.com/a''
        \<in> set (fst (snd (process_feed feed_world (''Wire'', ''feed'') seen_db)))"
    by (simp add: process_feed_seen_db)
  from seen_url_is_dropped [OF parse_feed_feed_world h2 h3 h4 h5 h6] u other
    parse_feed_feed_world
  show ?thesis by simp
qed

text \<open>
  C2, as amended: when fetching the text succeeds for every article that survives the
  filter, and rendering and posting succeed for every one that matched, the batch ends
  without an exception and appends exactly one row per surviving article, in order,
  matched or not. A batch that an exception ends has appended fewer rows than there are
  surviving articles.
\<close>

theorem one_row_per_survivor:
  assumes "parse_feed w o_name feed_url = Inr articles"
    and "survivors = filter_articles (recent_urls db o_name) articles"
    and "process_feed w (o_name, feed_url) db = (db', evs, r)"
  shows "(r = None \<longleftrightarrow> (\<forall>a\<in>set survivors. \<exists>a'. snd (check_and_tweet w a) = Inr a'))
     \<and> (r = None \<longleftrightarrow> length db' = length db + length survivors)
     \<and> length db' \<le> length db + length survivors
     \<and> (r = None \<longrightarrow> (\<exists>rows. db' = db @ rows \<and> list_all2 (recorded_as w) survivors rows))"
proof -
  have pa: "process_articles w survivors db = (db', evs, r)"
    using assms process_feed_parsed [OF assms(1), of db] by simp
  from process_articles_rows [of w survivors db] obtain rows where rows:
    "fst (process_articles w survivors db) = db @ rows"
    "list_all2 (recorded_as w) (take (length rows) survivors) rows"
    "length rows \<le> length survivors"
    "snd (snd (process_articles w survivors db)) = None \<longleftrightarrow> length rows = length survivors"
    by (elim exE conjE) (rule that)
  have db': "db' = db @ rows" using rows(1) pa by simp
  have r: "r = None \<longleftrightarrow> length rows = length survivors" using rows(4) pa by simp
  have 1: "r = None \<longleftrightarrow> (\<forall>a\<in>set survivors. \<exists>a'. snd (check_and_tweet w a) = Inr a')"
    using process_articles_None_iff [of w survivors db] pa by simp
  have 2: "r = None \<longleftrightarrow> length db' = length db + length survivors"
    using r db' by simp
  have 3: "length db' \<le> length db + length survivors"
    using rows(3) db' by simp
  have 4: "r = None \<longrightarrow> (\<exists>rows. db' = db @ rows \<and> list_all2 (recorded_as w) survivors rows)"
  proof
    assume "r = None"
    with r have "length rows = length survivors" by simp
    with rows(2) have "list_all2 (recorded_as w) survivors rows" by simp
    with db' have "db' = db @ rows \<and> list_all2 (recorded_as w) survivors rows" by simp
    then show "\<exists>rows. db' = db @ rows \<and> list_all2 (recorded_as w) survivors rows"
      by (rule exI)
  qed
  from 1 2 3 4 show ?thesis by (intro conjI)
qed

lemma tweet_post_fails:
  assumes "Update_status s ids \<in> set (fst (tweet w a))"
    and "update_status w (status_text a) [] = Inl e"
  shows "snd (tweet w a) = Inl e"
proof (cases rule: tweet_cases [of w a])
  case (render_fails n e')
  with assms(1) show ?thesis by auto
next
  case (no_twitter e')
  with assms(1) show ?thesis by auto
next
  case (posted a1 new)
  with assms(2) show ?thesis by simp
qed

lemma process_articles_stops:
  assumes "process_articles w before db = (db1, ev1, None)"
    and "snd (check_and_tweet w a) = Inl e"
  shows "process_articles w (before @ a # rest) db = (db1, ev1 @ fst (check_and_tweet w a), Some e)"
    and "length db1 = length db + length before"
proof -
  show "process_articles w (before @ a # rest) db = (db1, ev1 @ fst (check_and_tweet w a), Some e)"
    using assms
    by (simp add: process_articles_append process_articles_fail del: process_articles.simps)
  from process_articles_rows [of w before db] obtain rows where
    "fst (process_articles w before db) = db @ rows"
    "snd (snd (process_articles w before db)) = None \<longleftrightarrow> length rows = length before"
    by (elim exE conjE) (rule that)
  with assms(1) show "length db1 = length db + length before" by simp
qed

theorem one_row_per_survivor_witness:
  "parse_feed feed_world ''Wire'' ''feed'' = Inr [first_article, second_article]
   \<and> [first_article, second_article]
       = filter_articles (recent_urls [] ''Wire'') [first_article, second_article]
   \<and> snd (snd (process_feed feed_world (''Wire'', ''feed'') [])) = None
   \<and> length (fst (process_feed feed_world (''Wire'', ''feed'') []))
       = length ([]::row list) + length [first_article, second_article]
   \<and> map row_tweeted (fst (process_feed feed_world (''Wire'', ''feed'') [])) = [True, False]"
proof -
  let ?db' = "fst (process_feed feed_world (''Wire'', ''feed'') [])"
  let ?evs = "fst (snd (process_feed feed_world (''Wire'', ''feed'') []))"
  have r: "snd (snd (process_feed feed_world (''Wire'', ''feed'') [])) = None"
    by (simp add: process_feed_feed_world)
  then have pf: "process_feed feed_world (''Wire'', ''feed'') [] = (?db', ?evs, None)"
    by (metis prod.collapse)
  have "length ?db' = length ([]::row list) + length [first_article, second_article]"
    using one_row_per_survivor [OF parse_feed_feed_world survivors_empty_db [symmetric] pf]
    by blast
  moreover have "map row_tweeted ?db' = [True, False]"
    by (simp add: process_feed_feed_world)
  ultimately show ?thesis
    using parse_feed_feed_world survivors_empty_db r by simp
qed

theorem rows_missing_after_failed_post:
  "parse_feed no_post_world ''Wire'' ''feed'' = Inr [first_article, second_article]
   \<and> filter_articles (recent_urls [] ''Wire'') [first_article, second_article]
       = [first_article, second_article]
   \<and> fst (process_feed no_post_world (''Wire'', ''feed'') []) = []
   \<and> length (fst (process_feed no_post_world (''Wire'', ''feed'') []))
       \<noteq> length ([]::row list)
           + length (filter_articles (recent_urls [] ''Wire'') [first_article, second_article])"
  by (simp add: parse_feed_no_post_world survivors_empty_db process_feed_no_post_world)

text \<open>
  C4, as amended: when the status post of an article fails, the exception ends the
  batch there. The table holds the rows of the articles before it and no row for the
  article itself, and the rest of the batch is not processed: the result does not depend
  on it.
\<close>

theorem failed_post_ends_batch:
  assumes "process_articles w before db = (db1, ev1, None)"
    and "check_for_matches w a = (evc, Inr a1)"
    and "matching_grafs a1 \<noteq> []"
    and "Update_status s ids \<in> set (fst (tweet w a1))"
    and "update_status w (status_text a1) [] = Inl e"
  shows "process_articles w (before @ a # rest) db = (db1, ev1 @ evc @ fst (tweet w a1), Some e)
     \<and> length db1 = length db + length before"
proof -
  have t: "snd (tweet w a1) = Inl e"
    using assms(4,5) by (rule tweet_post_fails)
  have c: "check_and_tweet w a = (evc @ fst (tweet w a1), Inl e)"
    using assms(2,3) t by (simp add: check_and_tweet_def split_beta)
  then have "snd (check_and_tweet w a) = Inl e" by simp
  from process_articles_stops [OF assms(1) this] c show ?thesis by simp
qed

theorem failed_post_ends_batch_witness:
  "process_articles no_post_world [] [] = ([], [], None)
   \<and> update_status no_post_world ''Wire: First http://example.com/a'' []
       = Inl (External ''post failed'')
   \<and> process_articles no_post_world [first_article, second_article] [] =
       ([],
        [Check_for_matches ''http://example.com/a'',
         Tweet ''http://example.com/a'',
         Render_img ''This mentions FOIA here.'' 35,
         Render_img ''Para three about public RECORDS LAW.'' 35,
         Upload_media, Upload_media,
         Update_status ''Wire: First http://example.com/a'' []],
        Some (External ''post failed''))"
proof -
  let ?a1 = "first_article\<lparr>matching_grafs :=
        [''This mentions FOIA here.'', ''Para three about public RECORDS LAW.'']\<rparr>"
  have h1: "process_articles no_post_world [] [] = ([], [], None)" by simp
  have h3: "matching_grafs ?a1 \<noteq> []" by simp
  have h4: "Update_status ''Wire: First http://example.com/a'' []
      \<in> set (fst (tweet no_post_world ?a1))"
    by (simp add: tweet_first_article_no_post)
  have st: "status_text ?a1 = ''Wire: First http://example.com/a''"
    by (simp add: status_text_def first_article_def new_article_def)
  have up: "update_status no_post_world ''Wire: First http://example.com/a'' []
       = Inl (External ''post failed'')"
    by (simp add: no_post_world_def)
  then have h5: "update_status no_post_world (status_text ?a1) [] = Inl (External ''post failed'')"
    by (simp only: st)
  from failed_post_ends_batch [OF h1 check_first_article_no_post h3 h4 h5, of "[second_article]"]
  show ?thesis using h1 up by (simp add: tweet_first_article_no_post)
qed

theorem failed_post_not_recorded:
  "process_feed no_post_world (''Wire'', ''feed'') [] =
     ([],
      [Check_for_matches ''http://example.com/a'',
       Tweet ''http://example.com/a'',
       Render_img ''This mentions FOIA here.'' 35,
       Render_img ''Para three about public RECORDS LAW.'' 35,
       Upload_media, Upload_media,
       Update_status ''Wire: First http://example.com/a'' []],
      Some (External ''post failed''))
   \<and> Check_for_matches ''http://example.com/b''
        \<notin> set (fst (snd (process_feed no_post_world (''Wire'', ''feed'') [])))"
  by (simp add: process_feed_no_post_world)

text \<open>
  C5, as amended: when fetching the text of an article fails, the exception ends the
  batch there. The table holds the rows of the articles before it and no row for the
  article itself, and the rest of the batch is not processed: the result does not depend
  on it.
\<close>

theorem failed_fetch_ends_batch:
  assumes "process_articles w before db = (db1, ev1, None)"
    and "clean_article w a = Inl e"
  shows "process_articles w (before @ a # rest) db
       = (db1, ev1 @ [Check_for_matches (url a)], Some e)
     \<and> length db1 = length db + length before"
proof -
  have c: "check_and_tweet w a = ([Check_for_matches (url a)], Inl e)"
    using assms(2) by (simp add: check_and_tweet_def check_for_matches_fails)
  then have "snd (check_and_tweet w a) = Inl e" by simp
  from process_articles_stops [OF assms(1) this] c show ?thesis by simp
qed

theorem failed_fetch_ends_batch_witness:
  "process_articles no_text_world [] [] = ([], [], None)
   \<and> clean_article no_text_world first_article = Inl (External ''fetch failed'')
   \<and> process_articles no_text_world [first_article, second_article] [] =
       ([], [Check_for_matches ''http://example.com/a''], Some (External ''fetch failed''))"
proof -
  have h1: "process_articles no_text_world [] [] = ([], [], None)" by simp
  have h2: "clean_article no_text_world first_article = Inl (External ''fetch failed'')"
    by (simp add: clean_article_def no_text_world_def first_article_def new_article_def)
  have u: "url first_article = ''http://example.com/a''"
    by (simp add: first_article_def new_article_def)
  from failed_fetch_ends_batch [OF h1 h2, of "[second_article]"] h1 h2 u
  show ?thesis by simp
qed

theorem failed_fetch_not_recorded:
  "process_feed no_text_world (''Wire'', ''feed'') [] =
     ([], [Check_for_matches ''http://example.com/a''], Some (External ''fetch failed''))
   \<and> Check_for_matches ''http://example.com/b''
        \<notin> set (fst (snd (process_feed no_text_world (''Wire'', ''feed'') [])))"
  by (simp add: process_feed_no_text_world)

subsection \<open>Feed entries without title or link\<close>

lemma parse_entries_missing_key:
  assumes "entry \<in> set entries" and "entry ''title'' = None \<or> entry ''link'' = None"
  shows "\<exists>e. parse_entries w o_name entries articles = Inl e"
  using assms
proof (induction entries arbitrary: articles)
  case Nil
  then show ?case by simp
next
  case (Cons x xs)
  show ?case
  proof (cases "x ''title'' = None \<or> x ''link'' = None")
    case True
    then show ?thesis by (auto split: option.splits)
  next
    case False
    then obtain t l where tl: "x ''title'' = Some t" "x ''link'' = Some l" by auto
    from False Cons.prems have in_xs: "entry \<in> set xs" by auto
    show ?thesis
    proof (cases "Article w o_name t l")
      case (Inl e)
      with tl show ?thesis by simp
    next
      case (Inr a)
      from Cons.IH [OF in_xs Cons.prems(2), of "articles @ [a]"] tl Inr show ?thesis
        by simp
    qed
  qed
qed

lemma Article_no_lookup:
  "o_name \<notin> set [''ProPublica'', ''Reuters''] \<Longrightarrow> \<exists>a. Article w o_name t l = Inr a"
  by (simp add: Article_def canonicalize_url_def)

lemma parse_entries_missing_key_no_lookup:
  assumes "entry \<in> set entries" and "entry ''title'' = None \<or> entry ''link'' = None"
    and "o_name \<notin> set [''ProPublica'', ''Reuters'']"
  shows "parse_entries w o_name entries articles = Inl (KeyError ''title'')
     \<or> parse_entries w o_name entries articles = Inl (KeyError ''link'')"
  using assms(1,2)
proof (induction entries arbitrary: articles)
  case Nil
  then show ?case by simp
next
  case (Cons x xs)
  show ?case
  proof (cases "x ''title'' = None \<or> x ''link'' = None")
    case True
    then show ?thesis by (auto split: option.splits)
  next
    case False
    then obtain t l where tl: "x ''title'' = Some t" "x ''link'' = Some l" by auto
    obtain a where a: "Article w o_name t l = Inr a"
      using Article_no_lookup [OF assms(3)] by blast
    from False Cons.prems have "entry \<in> set xs" by auto
    from Cons.IH [OF this Cons.prems(2), of "articles @ [a]"] tl a show ?thesis
      by simp
  qed
qed

text \<open>
  C6, as amended: an entry of the feed without a title or without a link makes
  \<open>parse_feed\<close> raise. Nothing catches the exception: no article of the feed is
  processed, the table is unchanged, and the run ends without reading the feeds that
  follow. For an outlet without redirect lookup the exception is the \<open>KeyError\<close> of
  the missing key.
\<close>

theorem entry_without_key_ends_run:
  assumes "entry \<in> set (feed_entries w feed_url)"
    and "entry ''title'' = None \<or> entry ''link'' = None"
  shows "\<exists>e. parse_feed w o_name feed_url = Inl e
     \<and> process_feed w (o_name, feed_url) db = (db, [], Some e)
     \<and> main_loop w ((o_name, feed_url) # feeds) db = (db, [], Some e)
     \<and> (o_name \<notin> set [''ProPublica'', ''Reuters''] \<longrightarrow>
          e = KeyError ''title'' \<or> e = KeyError ''link'')"
proof -
  from parse_entries_missing_key [OF assms, of w o_name "[]"]
  obtain e where e0: "parse_entries w o_name (feed_entries w feed_url) [] = Inl e" ..
  then have e: "parse_feed w o_name feed_url = Inl e"
    by (simp only: parse_feed_def)
  have pf: "process_feed w (o_name, feed_url) db = (db, [], Some e)"
    using e by (rule process_feed_not_parsed)
  have ml: "main_loop w ((o_name, feed_url) # feeds) db = (db, [], Some e)"
    by (simp only: main_loop.simps pf prod.case option.case)
  have ke: "o_name \<notin> set [''ProPublica'', ''Reuters''] \<longrightarrow>
          e = KeyError ''title'' \<or> e = KeyError ''link''"
  proof
    assume "o_name \<notin> set [''ProPublica'', ''Reuters'']"
    from parse_entries_missing_key_no_lookup [OF assms this, of w "[]"]
    show "e = KeyError ''title'' \<or> e = KeyError ''link''"
      unfolding e0 by (simp only: sum.inject)
  qed
  from e pf ml ke have "parse_feed w o_name feed_url = Inl e
     \<and> process_feed w (o_name, feed_url) db = (db, [], Some e)
     \<and> main_loop w ((o_name, feed_url) # feeds) db = (db, [], Some e)
     \<and> (o_name \<notin> set [''ProPublica'', ''Reuters''] \<longrightarrow>
          e = KeyError ''title'' \<or> e = KeyError ''link'')"
    by (intro conjI)
  then show ?thesis by (rule exI [of _ e])
qed

theorem entry_without_key_ends_run_witness:
  "[''title'' \<mapsto> ''No link''] \<in> set (feed_entries bad_feed_world ''feed'')
   \<and> [''title'' \<mapsto> ''No link''] ''link'' = None
   \<and> ''Wire'' \<notin> set [''ProPublica'', ''Reuters'']
   \<and> (\<exists>e. parse_feed bad_feed_world ''Wire'' ''feed'' = Inl e
        \<and> process_feed bad_feed_world (''Wire'', ''feed'') seen_db = (seen_db, [], Some e)
        \<and> main_loop bad_feed_world [(''Wire'', ''feed''), (''AP'', ''other'')] seen_db
            = (seen_db, [], Some e)
        \<and> (e = KeyError ''title'' \<or> e = KeyError ''link''))"
proof -
  have h1: "[''title'' \<mapsto> ''No link''] \<in> set (feed_entries bad_feed_world ''feed'')"
    by (simp add: bad_feed_world_def)
  have n: "[''title'' \<mapsto> ''No link''] ''link'' = None" by simp
  then have h2: "[''title'' \<mapsto> ''No link''] ''title'' = None
      \<or> [''title'' \<mapsto> ''No link''] ''link'' = None" ..
  have h3: "''Wire'' \<notin> set [''ProPublica'', ''Reuters'']" by simp
  from entry_without_key_ends_run [OF h1 h2, of "''Wire''" seen_db "[(''AP'', ''other'')]"]
    h1 n h3
  show ?thesis by blast
qed

theorem entry_without_link_not_skipped:
  "parse_feed bad_feed_world ''Wire'' ''feed'' = Inl (KeyError ''link'')
   \<and> process_feed bad_feed_world (''Wire'', ''feed'') [] = ([], [], Some (KeyError ''link''))"
  by (simp add: parse_feed_bad_feed_world process_feed_not_parsed)

end
